theory Spec2Isabelle
  imports Complex_Main "HOL-Library.Monad_Syntax" "HOL-Library.Word"
begin

section \<open>The Gilbert curve generator (script.js: gilbert2d, generate2d)\<close>

text \<open>
  JavaScript numbers that hold image dimensions and coordinates are integers far below
  \<open>2^53\<close>, where double arithmetic on them is exact; they are modelled as \<open>int\<close>.
  \<open>Math.floor(a / 2)\<close> on an integer is \<open>a div 2\<close> (rounding towards minus infinity),
  \<open>Math.sign\<close> is \<open>sgn\<close> and \<open>Math.abs\<close> is \<open>abs\<close>.
  The array \<open>coordinates\<close> that generate2d pushes to is threaded through as a list.
\<close>

type_synonym cell = "int \<times> int"

text \<open>The two trivial fills: \<open>for (let i = 0; i < n; i++) { push([x, y]); x += dx; y += dy; }\<close>\<close>

function fill_loop ::
  "int \<Rightarrow> int \<Rightarrow> int \<Rightarrow> int \<Rightarrow> int \<Rightarrow> int \<Rightarrow> cell list \<Rightarrow> cell list" where
  "fill_loop i n x y dx dy coordinates =
     (if i < n then fill_loop (i + 1) n (x + dx) (y + dy) dx dy (coordinates @ [(x, y)])
      else coordinates)"
  by pat_completeness auto
termination
  by (relation "measure (\<lambda>(i, n, x, y, dx, dy, coordinates). nat (n - i))") auto

declare fill_loop.simps [simp del]

text \<open>
  generate2d is recursive with no guard of its own against vectors of length 0, so the
  model is a partial function: \<open>None\<close> is a call that never returns (in the browser the
  recursion ends in a stack overflow).
\<close>

partial_function (option) generate2d ::
  "int \<Rightarrow> int \<Rightarrow> int \<Rightarrow> int \<Rightarrow> int \<Rightarrow> int \<Rightarrow> cell list \<Rightarrow> cell list option" where
  "generate2d x y ax ay bx by coordinates =
     (let w = \<bar>ax + ay\<bar>; h = \<bar>bx + by\<bar>;
          dax = sgn ax; day = sgn ay;
          dbx = sgn bx; dby = sgn by
      in if h = 1 then Some (fill_loop 0 w x y dax day coordinates)
         else if w = 1 then Some (fill_loop 0 h x y dbx dby coordinates)
         else
           let ax2 = ax div 2; ay2 = ay div 2;
               bx2 = bx div 2; by2 = by div 2;
               w2 = \<bar>ax2 + ay2\<bar>; h2 = \<bar>bx2 + by2\<bar>
           in if 2 * w > 3 * h then
                let (ax2, ay2) = (if w2 mod 2 \<noteq> 0 \<and> w > 2
                                  then (ax2 + dax, ay2 + day) else (ax2, ay2))
                in do {
                  c1 \<leftarrow> generate2d x y ax2 ay2 bx by coordinates;
                  generate2d (x + ax2) (y + ay2) (ax - ax2) (ay - ay2) bx by c1
                }
              else
                let (bx2, by2) = (if h2 mod 2 \<noteq> 0 \<and> h > 2
                                  then (bx2 + dbx, by2 + dby) else (bx2, by2))
                in do {
                  c1 \<leftarrow> generate2d x y bx2 by2 ax2 ay2 coordinates;
                  c2 \<leftarrow> generate2d (x + bx2) (y + by2) ax ay (bx - bx2) (by - by2) c1;
                  generate2d (x + (ax - dax) + (bx2 - dbx)) (y + (ay - day) + (by2 - dby))
                    (- bx2) (- by2) (- (ax - ax2)) (- (ay - ay2)) c2
                })"

declare generate2d.simps [code]

definition gilbert2d :: "int \<Rightarrow> int \<Rightarrow> cell list option" where
  "gilbert2d width height =
     (if width \<ge> height then generate2d 0 0 width 0 0 height []
      else generate2d 0 0 0 height width 0 [])"

subsection \<open>The recursive calls of generate2d\<close>

text \<open>
  A call of generate2d is the tuple of its six numeric arguments. \<open>sub_calls\<close> lists, in
  order, the recursive calls that the body of generate2d makes for a given call (none in
  the two base cases, two in the long split, three in the standard split); \<open>run_calls\<close>
  runs such a list on the shared array. \<open>gilbert_calls width height\<close> is the set of all
  calls of generate2d that arise from gilbert2d(width, height).
\<close>

type_synonym call = "int \<times> int \<times> int \<times> int \<times> int \<times> int"

definition call_w :: "call \<Rightarrow> int" where
  "call_w c = (case c of (x, y, ax, ay, bx, by) \<Rightarrow> \<bar>ax + ay\<bar>)"

definition call_h :: "call \<Rightarrow> int" where
  "call_h c = (case c of (x, y, ax, ay, bx, by) \<Rightarrow> \<bar>bx + by\<bar>)"

definition sub_calls :: "call \<Rightarrow> call list" where
  "sub_calls c = (case c of (x, y, ax, ay, bx, by) \<Rightarrow>
     (let w = \<bar>ax + ay\<bar>; h = \<bar>bx + by\<bar>;
          dax = sgn ax; day = sgn ay;
          dbx = sgn bx; dby = sgn by
      in if h = 1 then []
         else if w = 1 then []
         else
           let ax2 = ax div 2; ay2 = ay div 2;
               bx2 = bx div 2; by2 = by div 2;
               w2 = \<bar>ax2 + ay2\<bar>; h2 = \<bar>bx2 + by2\<bar>
           in if 2 * w > 3 * h then
                let (ax2, ay2) = (if w2 mod 2 \<noteq> 0 \<and> w > 2
                                  then (ax2 + dax, ay2 + day) else (ax2, ay2))
                in [(x, y, ax2, ay2, bx, by),
                    (x + ax2, y + ay2, ax - ax2, ay - ay2, bx, by)]
              else
                let (bx2, by2) = (if h2 mod 2 \<noteq> 0 \<and> h > 2
                                  then (bx2 + dbx, by2 + dby) else (bx2, by2))
                in [(x, y, bx2, by2, ax2, ay2),
                    (x + bx2, y + by2, ax, ay, bx - bx2, by - by2),
                    (x + (ax - dax) + (bx2 - dbx), y + (ay - day) + (by2 - dby),
                     - bx2, - by2, - (ax - ax2), - (ay - ay2))]))"

fun run_calls :: "call list \<Rightarrow> cell list \<Rightarrow> cell list option" where
  "run_calls [] coordinates = Some coordinates"
| "run_calls ((x, y, ax, ay, bx, by) # rest) coordinates =
     (generate2d x y ax ay bx by coordinates \<bind> run_calls rest)"

inductive_set gilbert_calls :: "int \<Rightarrow> int \<Rightarrow> call set" for width height :: int where
  wide: "width \<ge> height \<Longrightarrow> (0, 0, width, 0, 0, height) \<in> gilbert_calls width height"
| tall: "\<not> width \<ge> height \<Longrightarrow> (0, 0, 0, height, width, 0) \<in> gilbert_calls width height"
| sub: "c \<in> gilbert_calls width height \<Longrightarrow> c' \<in> set (sub_calls c) \<Longrightarrow>
        c' \<in> gilbert_calls width height"

subsection \<open>Vocabulary for the curve's properties\<close>

definition manhattan :: "cell \<Rightarrow> cell \<Rightarrow> int" where
  "manhattan c d = \<bar>fst c - fst d\<bar> + \<bar>snd c - snd d\<bar>"

definition chebyshev :: "cell \<Rightarrow> cell \<Rightarrow> int" where
  "chebyshev c d = max \<bar>fst c - fst d\<bar> \<bar>snd c - snd d\<bar>"

text \<open>
  Every call that arises from positive dimensions has axis-aligned vectors \<open>a\<close> and \<open>b\<close>:
  one of them horizontal, the other vertical. Such a call is described by its orientation
  (\<open>horiz\<close>: \<open>a\<close> is horizontal), its origin and the two signed lengths \<open>sa\<close> and \<open>sb\<close>.
  \<open>gen\<close> is generate2d on a call given this way, \<open>shift horiz p i j\<close> is the cell \<open>i\<close> steps
  along the axis of \<open>a\<close> and \<open>j\<close> steps along the axis of \<open>b\<close> from \<open>p\<close>, and \<open>adj_half\<close> is the
  halving with the "prefer even steps" correction that the body applies to the vector it
  splits.
\<close>

definition adj_half :: "int \<Rightarrow> int" where
  "adj_half s = (let s2 = s div 2 in if \<bar>s2\<bar> mod 2 \<noteq> 0 \<and> \<bar>s\<bar> > 2 then s2 + sgn s else s2)"

definition shift :: "bool \<Rightarrow> cell \<Rightarrow> int \<Rightarrow> int \<Rightarrow> cell" where
  "shift horiz p i j = (if horiz then (fst p + i, snd p + j) else (fst p + j, snd p + i))"

definition gen :: "bool \<Rightarrow> cell \<Rightarrow> int \<Rightarrow> int \<Rightarrow> cell list \<Rightarrow> cell list option" where
  "gen horiz p sa sb cs =
     (if horiz then generate2d (fst p) (snd p) sa 0 0 sb cs
      else generate2d (fst p) (snd p) 0 sa sb 0 cs)"

definition line :: "cell \<Rightarrow> int \<Rightarrow> int \<Rightarrow> nat \<Rightarrow> cell list" where
  "line p dx dy n = map (\<lambda>k. (fst p + int k * dx, snd p + int k * dy)) [0..<n]"

text \<open>
  The signed lengths that occur: both positive, or both negative with \<open>sa\<close> even or \<open>- 1\<close>
  (negative vectors come from the third call of the standard split only).
\<close>

definition reach :: "int \<Rightarrow> int \<Rightarrow> bool" where
  "reach sa sb \<longleftrightarrow> (0 < sa \<and> 0 < sb) \<or> (sa < 0 \<and> sb < 0 \<and> (even sa \<or> sa = - 1))"

definition call_ok :: "call \<Rightarrow> bool" where
  "call_ok c = (case c of (x, y, ax, ay, bx, by) \<Rightarrow>
      (ay = 0 \<and> bx = 0 \<and> reach ax by) \<or> (ax = 0 \<and> by = 0 \<and> reach ay bx))"

definition in_span :: "int \<Rightarrow> int \<Rightarrow> bool" where
  "in_span s d \<longleftrightarrow> (0 < s \<and> 0 \<le> d \<and> d < s) \<or> (s < 0 \<and> s < d \<and> d \<le> 0)"

definition in_rect :: "bool \<Rightarrow> cell \<Rightarrow> int \<Rightarrow> int \<Rightarrow> cell \<Rightarrow> bool" where
  "in_rect horiz p sa sb c \<longleftrightarrow>
     (if horiz then in_span sa (fst c - fst p) \<and> in_span sb (snd c - snd p)
      else in_span sa (snd c - snd p) \<and> in_span sb (fst c - fst p))"

text \<open>
  The cell where the curve of a call ends. It is the far end of \<open>a\<close>, with two exceptions:
  a strip of width 1 is filled along \<open>b\<close>, and a rectangle of odd width and height 2
  ends one cell short.
\<close>

definition end_cell :: "bool \<Rightarrow> cell \<Rightarrow> int \<Rightarrow> int \<Rightarrow> cell" where
  "end_cell horiz p sa sb =
     (if \<bar>sa\<bar> = 1 then shift horiz p 0 (sb - sgn sb)
      else if odd sa \<and> \<bar>sb\<bar> = 2 then shift horiz p (sa - 2 * sgn sa) 0
      else shift horiz p (sa - sgn sa) 0)"

text \<open>The rectangles whose curve contains a diagonal step.\<close>

definition diag :: "int \<Rightarrow> int \<Rightarrow> bool" where
  "diag sa sb \<longleftrightarrow> odd sa \<and> 3 \<le> \<bar>sa\<bar> \<and> even sb \<and> 4 \<le> \<bar>sb\<bar>"

definition king_step :: "cell \<Rightarrow> cell \<Rightarrow> bool" where
  "king_step c d \<longleftrightarrow> \<bar>fst c - fst d\<bar> \<le> 1 \<and> \<bar>snd c - snd d\<bar> \<le> 1"

definition rook_step :: "cell \<Rightarrow> cell \<Rightarrow> bool" where
  "rook_step c d \<longleftrightarrow> \<bar>fst c - fst d\<bar> + \<bar>snd c - snd d\<bar> = 1"

definition good :: "bool \<Rightarrow> cell \<Rightarrow> int \<Rightarrow> int \<Rightarrow> cell list \<Rightarrow> bool" where
  "good horiz p sa sb ys \<longleftrightarrow>
     length ys = nat (sa * sb) \<and> distinct ys \<and> set ys = {c. in_rect horiz p sa sb c} \<and>
     hd ys = p \<and> last ys = end_cell horiz p sa sb \<and>
     successively king_step ys \<and> (\<not> diag sa sb \<longrightarrow> successively rook_step ys)"

text \<open>What the standard split does to the lengths: \<open>t2\<close> is the part of \<open>b\<close>, \<open>a2\<close> the half of \<open>a\<close>.\<close>

definition std_split :: "int \<Rightarrow> int \<Rightarrow> int \<Rightarrow> int \<Rightarrow> bool" where
  "std_split sa sb t2 a2 \<longleftrightarrow>
     (0 < sa \<and> 0 < sb \<and> 0 < t2 \<and> t2 < sb \<and> 0 < a2 \<and> a2 < sa \<and>
        (sb = 2 \<and> t2 = 1 \<and> (sa = 2 \<or> sa = 3) \<and> a2 = 1 \<or> 3 \<le> sb \<and> even t2)) \<or>
     (sa < 0 \<and> sb < 0 \<and> even sa \<and> sb < t2 \<and> t2 < 0 \<and> sa < a2 \<and> a2 < 0 \<and>
        (sb = - 2 \<and> t2 = - 1 \<and> sa = - 2 \<and> a2 = - 1 \<or> sb \<le> - 3 \<and> even t2))"

section \<open>The pixel permutation (part_000: encrypt, applyGilbertConfusion, decrypt)\<close>

text \<open>
  A pixel buffer is the \<open>data\<close> of an ImageData: a Uint8ClampedArray with four samples
  (R, G, B, A) for each pixel, row by row. What the source raises is a value of the model:
  \<open>TypeError\<close> for an index into \<open>undefined\<close>, \<open>RangeError\<close> for a typed-array offset or
  length out of bounds, \<open>IndexSizeError\<close> for an ImageData with a zero dimension, and
  \<open>NoReturn\<close> for a call that does not return.
\<close>

type_synonym byte = "8 word"
type_synonym pixels = "byte list"

datatype js_error = TypeError | RangeError | IndexSizeError | NoReturn

text \<open>\<open>curve[i]\<close>: \<open>undefined\<close> outside the array, and reading a field of it throws.\<close>

definition curve_at :: "cell list \<Rightarrow> int \<Rightarrow> js_error + cell" where
  "curve_at curve i =
     (if 0 \<le> i \<and> i < int (length curve) then Inr (curve ! nat i) else Inl TypeError)"

text \<open>JavaScript's \<open>%\<close> on integers: the result has the sign of the dividend.\<close>

definition js_rem :: "int \<Rightarrow> int \<Rightarrow> int" where
  "js_rem a b = (if 0 \<le> a then a mod \<bar>b\<bar> else - ((- a) mod \<bar>b\<bar>))"

text \<open>\<open>TypedArray.prototype.slice(start, end)\<close>: negative indices count from the end, all are clamped.\<close>

definition js_slice :: "pixels \<Rightarrow> int \<Rightarrow> int \<Rightarrow> pixels" where
  "js_slice xs start end =
     (let len = int (length xs);
          k = (if start < 0 then max (len + start) 0 else min start len);
          final = (if end < 0 then max (len + end) 0 else min end len)
      in take (nat (final - k)) (drop (nat k) xs))"

text \<open>\<open>TypedArray.prototype.set(source, offset)\<close>: throws when the source does not fit.\<close>

definition js_set :: "pixels \<Rightarrow> pixels \<Rightarrow> int \<Rightarrow> js_error + pixels" where
  "js_set target source offset =
     (if offset < 0 \<or> int (length source) + offset > int (length target) then Inl RangeError
      else Inr (take (nat offset) target @ source @ drop (nat offset + length source) target))"

text \<open>
  A counting loop \<open>for (let i = 0; i < n; i++) body\<close> whose body may throw: the first
  exception ends the loop.
\<close>

function try_loop ::
  "int \<Rightarrow> int \<Rightarrow> (int \<Rightarrow> 's \<Rightarrow> js_error + 's) \<Rightarrow> 's \<Rightarrow> js_error + 's" where
  "try_loop i n body s =
     (if i < n then (case body i s of Inl e \<Rightarrow> Inl e | Inr s' \<Rightarrow> try_loop (i + 1) n body s')
      else Inr s)"
  by pat_completeness auto
termination
  by (relation "measure (\<lambda>(i, n, body, s). nat (n - i))") auto

declare try_loop.simps [simp del]

text \<open>
  The offsets. The source computes them in double arithmetic; the model computes the same
  expression in the reals (\<open>Math.round\<close> is \<open>round\<close>: halves go up). encrypt passes the
  strength read from the page, decrypt has no strength.
\<close>

definition encrypt_offset :: "int \<Rightarrow> int \<Rightarrow> real \<Rightarrow> int" where
  "encrypt_offset width height strength =
     round ((sqrt 5 - 1) / 2 * real_of_int width * real_of_int height * strength)"

definition decrypt_offset :: "int \<Rightarrow> int \<Rightarrow> int" where
  "decrypt_offset width height =
     round ((sqrt 5 - 1) / 2 * real_of_int width * real_of_int height)"

text \<open>The body of the loop of applyGilbertConfusion: the pixel at \<open>curve[i]\<close> goes to \<open>curve[(i + offset) % n]\<close>.\<close>

definition confuse_step ::
  "int \<Rightarrow> int \<Rightarrow> cell list \<Rightarrow> int \<Rightarrow> pixels \<Rightarrow> int \<Rightarrow> pixels \<Rightarrow> js_error + pixels" where
  "confuse_step width height curve offset imgdata i imgdata2 =
     (case curve_at curve i of Inl e \<Rightarrow> Inl e | Inr old_pos \<Rightarrow>
      (case curve_at curve (js_rem (i + offset) (width * height)) of Inl e \<Rightarrow> Inl e
       | Inr new_pos \<Rightarrow>
          (let old_p = 4 * (fst old_pos + snd old_pos * width);
               new_p = 4 * (fst new_pos + snd new_pos * width)
           in js_set imgdata2 (js_slice imgdata old_p (old_p + 4)) new_p)))"

text \<open>The body of the loop of decrypt: the pixel at \<open>curve[(i + offset) % n]\<close> goes back to \<open>curve[i]\<close>.\<close>

definition deconfuse_step ::
  "int \<Rightarrow> int \<Rightarrow> cell list \<Rightarrow> int \<Rightarrow> pixels \<Rightarrow> int \<Rightarrow> pixels \<Rightarrow> js_error + pixels" where
  "deconfuse_step width height curve offset imgdata i imgdata2 =
     (case curve_at curve i of Inl e \<Rightarrow> Inl e | Inr old_pos \<Rightarrow>
      (case curve_at curve (js_rem (i + offset) (width * height)) of Inl e \<Rightarrow> Inl e
       | Inr new_pos \<Rightarrow>
          (let old_p = 4 * (fst old_pos + snd old_pos * width);
               new_p = 4 * (fst new_pos + snd new_pos * width)
           in js_set imgdata2 (js_slice imgdata new_p (new_p + 4)) old_p)))"

text \<open>
  The canvas context is modelled by the pixel buffer it holds: \<open>getImageData\<close> reads it,
  \<open>putImageData\<close> replaces it. \<open>getImageData\<close> and \<open>new ImageData\<close> throw for a dimension
  that is not positive; a fresh ImageData is all zeros.
\<close>

definition applyGilbertConfusion :: "pixels \<Rightarrow> int \<Rightarrow> int \<Rightarrow> real \<Rightarrow> js_error + pixels" where
  "applyGilbertConfusion ctx width height strength =
     (if width \<le> 0 \<or> height \<le> 0 then Inl IndexSizeError
      else
        let imgdata = ctx;
            imgdata2 = replicate (nat (4 * width * height)) (0 :: byte)
        in case gilbert2d width height of None \<Rightarrow> Inl NoReturn
           | Some curve \<Rightarrow>
               let offset = encrypt_offset width height strength
               in try_loop 0 (width * height)
                    (confuse_step width height curve offset imgdata) imgdata2)"

section \<open>The block transform (part_000: applyBlockConfusion, processBlockSmooth)\<close>

text \<open>
  A typed-array read out of range is \<open>undefined\<close> (\<open>None\<close>), a write out of range is ignored.
  Storing \<open>undefined\<close> or \<open>NaN\<close> into a typed array stores 0.
\<close>

definition ta_get :: "pixels \<Rightarrow> int \<Rightarrow> byte option" where
  "ta_get xs i = (if 0 \<le> i \<and> i < int (length xs) then Some (xs ! nat i) else None)"

definition ta_put :: "pixels \<Rightarrow> int \<Rightarrow> byte \<Rightarrow> pixels" where
  "ta_put xs i v = (if 0 \<le> i \<and> i < int (length xs) then xs[nat i := v] else xs)"

definition to_uint8 :: "byte option \<Rightarrow> byte" where
  "to_uint8 v = (case v of None \<Rightarrow> 0 | Some b \<Rightarrow> b)"

text \<open>A counting loop \<open>for (let i = 0; i < n; i++) body\<close> whose body does not throw.\<close>

function for_loop :: "int \<Rightarrow> int \<Rightarrow> (int \<Rightarrow> 's \<Rightarrow> 's) \<Rightarrow> 's \<Rightarrow> 's" where
  "for_loop i n body s = (if i < n then for_loop (i + 1) n body (body i s) else s)"
  by pat_completeness auto
termination
  by (relation "measure (\<lambda>(i, n, body, s). nat (n - i))") auto

declare for_loop.simps [simp del]

text \<open>
  The numbers of the blend are doubles. \<open>double_round x\<close> is the double nearest to the real
  \<open>x\<close>: round to nearest with ties to even, on 53 significant bits. Each arithmetic
  operation of the source (\<open>+\<close>, \<open>-\<close>, \<open>*\<close>, \<open>/\<close>, \<open>** 2\<close>, \<open>Math.sqrt\<close>) is the exact operation
  followed by this rounding; integers of the size of an image dimension or a sample are
  doubles as they are. The strength is the value of the double read from the page. The
  exponent range of a double is not modelled: \<open>Infinity\<close> and \<open>NaN\<close>, which the blend reaches
  only from a strength that is one of them or is beyond \<open>10\<^bsup>300\<^esup>\<close> in size, are outside the model.
\<close>

definition round_even :: "real \<Rightarrow> int" where
  "round_even x =
     (let f = \<lfloor>x\<rfloor>; r = x - real_of_int f
      in if r < 1 / 2 then f else if 1 / 2 < r then f + 1 else if even f then f else f + 1)"

definition double_round :: "real \<Rightarrow> real" where
  "double_round x =
     (if x = 0 then 0
      else let ulp = 2 powi (\<lfloor>log 2 \<bar>x\<bar>\<rfloor> - 52)
           in real_of_int (round_even (x / ulp)) * ulp)"

definition js_add :: "real \<Rightarrow> real \<Rightarrow> real" where
  "js_add a b = double_round (a + b)"

definition js_sub :: "real \<Rightarrow> real \<Rightarrow> real" where
  "js_sub a b = double_round (a - b)"

definition js_mul :: "real \<Rightarrow> real \<Rightarrow> real" where
  "js_mul a b = double_round (a * b)"

definition js_div :: "real \<Rightarrow> real \<Rightarrow> real" where
  "js_div a b = double_round (a / b)"

definition js_sq :: "real \<Rightarrow> real" where
  "js_sq a = double_round (a\<^sup>2)"

definition js_sqrt :: "real \<Rightarrow> real" where
  "js_sqrt a = double_round (sqrt a)"

text \<open>
  \<open>1 - (distance / maxDistance) * strength\<close>, with
  \<open>distance = Math.sqrt((dx - blockWidth/2) ** 2 + (dy - blockHeight/2) ** 2)\<close> and
  \<open>maxDistance = Math.sqrt((blockWidth/2) ** 2 + (blockHeight/2) ** 2)\<close>.
\<close>

definition smooth_factor :: "int \<Rightarrow> int \<Rightarrow> int \<Rightarrow> int \<Rightarrow> real \<Rightarrow> real" where
  "smooth_factor dx dy blockWidth blockHeight strength =
     (let distance =
            js_sqrt (js_add (js_sq (js_sub (real_of_int dx) (js_div (real_of_int blockWidth) 2)))
                            (js_sq (js_sub (real_of_int dy) (js_div (real_of_int blockHeight) 2))));
          maxDistance =
            js_sqrt (js_add (js_sq (js_div (real_of_int blockWidth) 2))
                            (js_sq (js_div (real_of_int blockHeight) 2)))
      in js_sub 1 (js_mul (js_div distance maxDistance) strength))"

text \<open>
  A sample is an integer in \<open>0..255\<close>; the result of \<open>Math.floor\<close> is stored into the
  Uint8ClampedArray, which clamps it to that range.
\<close>

definition clamp_store :: "int \<Rightarrow> byte" where
  "clamp_store v = word_of_int (max 0 (min 255 v))"

text \<open>\<open>Math.floor(cur * smoothFactor + orig * (1 - smoothFactor))\<close>\<close>

definition blend :: "real \<Rightarrow> byte \<Rightarrow> byte \<Rightarrow> byte" where
  "blend sf cur orig =
     clamp_store \<lfloor>js_add (js_mul (real (unat cur)) sf) (js_mul (real (unat orig)) (js_sub 1 sf))\<rfloor>"

text \<open>\<open>Math.floor(data[i] * sf + originalData[t] * (1 - sf))\<close>, where an \<open>undefined\<close> operand gives \<open>NaN\<close>.\<close>

definition blend_sample :: "real \<Rightarrow> byte option \<Rightarrow> byte option \<Rightarrow> byte" where
  "blend_sample sf cur orig =
     (case cur of None \<Rightarrow> 0 | Some c \<Rightarrow> (case orig of None \<Rightarrow> 0 | Some v \<Rightarrow> blend sf c v))"

text \<open>The body of the first pair of loops: one pixel of the tile is copied to \<open>originalData\<close>.\<close>

definition snapshot_pixel ::
  "pixels \<Rightarrow> int \<Rightarrow> int \<Rightarrow> int \<Rightarrow> int \<Rightarrow> int \<Rightarrow> int \<Rightarrow> pixels \<Rightarrow> pixels" where
  "snapshot_pixel data startX startY blockWidth width dy dx originalData =
     (let index = ((startY + dy) * width + (startX + dx)) * 4;
          tempIndex = (dy * blockWidth + dx) * 4;
          originalData = ta_put originalData tempIndex (to_uint8 (ta_get data index));
          originalData = ta_put originalData (tempIndex + 1) (to_uint8 (ta_get data (index + 1)));
          originalData = ta_put originalData (tempIndex + 2) (to_uint8 (ta_get data (index + 2)));
          originalData = ta_put originalData (tempIndex + 3) (to_uint8 (ta_get data (index + 3)))
      in originalData)"

text \<open>The body of the second pair of loops: the three colour samples of one pixel are rewritten.\<close>

definition smooth_pixel ::
  "pixels \<Rightarrow> int \<Rightarrow> int \<Rightarrow> int \<Rightarrow> int \<Rightarrow> int \<Rightarrow> real \<Rightarrow> int \<Rightarrow> int \<Rightarrow> pixels \<Rightarrow> pixels" where
  "smooth_pixel originalData startX startY blockWidth blockHeight width strength dy dx data =
     (let index = ((startY + dy) * width + (startX + dx)) * 4;
          tempIndex = (dy * blockWidth + dx) * 4;
          smoothFactor = smooth_factor dx dy blockWidth blockHeight strength;
          data = ta_put data index
                   (blend_sample smoothFactor (ta_get data index) (ta_get originalData tempIndex));
          data = ta_put data (index + 1)
                   (blend_sample smoothFactor (ta_get data (index + 1))
                      (ta_get originalData (tempIndex + 1)));
          data = ta_put data (index + 2)
                   (blend_sample smoothFactor (ta_get data (index + 2))
                      (ta_get originalData (tempIndex + 2)))
      in data)"

text \<open>\<open>new Uint8Array(n)\<close> throws for a negative length.\<close>

definition processBlockSmooth ::
  "pixels \<Rightarrow> int \<Rightarrow> int \<Rightarrow> int \<Rightarrow> int \<Rightarrow> int \<Rightarrow> real \<Rightarrow> js_error + pixels" where
  "processBlockSmooth data startX startY blockWidth blockHeight width strength =
     (if blockWidth * blockHeight * 4 < 0 then Inl RangeError
      else
        let originalData = replicate (nat (blockWidth * blockHeight * 4)) (0 :: byte);
            originalData =
              for_loop 0 blockHeight (\<lambda>dy.
                for_loop 0 blockWidth (snapshot_pixel data startX startY blockWidth width dy))
                originalData
        in Inr (for_loop 0 blockHeight (\<lambda>dy.
                  for_loop 0 blockWidth
                    (smooth_pixel originalData startX startY blockWidth blockHeight width
                       strength dy))
                  data))"

text \<open>
  The loops over the tiles, \<open>for (let x = 0; x < n; x += blockSize)\<close>. They advance only for
  a positive blockSize. For \<open>blockSize \<le> 0\<close> the loops of applyBlockConfusion never end:
  every call of processBlockSmooth then has \<open>blockWidth = blockHeight = blockSize\<close>, allocates
  and returns with \<open>data\<close> untouched, and \<open>x\<close> stays below the width.
\<close>

function tile_loop ::
  "int \<Rightarrow> int \<Rightarrow> int \<Rightarrow> (int \<Rightarrow> 's \<Rightarrow> js_error + 's) \<Rightarrow> 's \<Rightarrow> js_error + 's" where
  "tile_loop x n blockSize body s =
     (if x < n \<and> 0 < blockSize then
        (case body x s of Inl e \<Rightarrow> Inl e | Inr s' \<Rightarrow> tile_loop (x + blockSize) n blockSize body s')
      else Inr s)"
  by pat_completeness auto
termination
  by (relation "measure (\<lambda>(x, n, blockSize, body, s). nat (n - x))") auto

declare tile_loop.simps [simp del]

definition applyBlockConfusion ::
  "pixels \<Rightarrow> int \<Rightarrow> int \<Rightarrow> int \<Rightarrow> real \<Rightarrow> js_error + pixels" where
  "applyBlockConfusion ctx width height blockSize strength =
     (if width \<le> 0 \<or> height \<le> 0 then Inl IndexSizeError
      else if blockSize \<le> 0 then Inl NoReturn
      else
        let data = ctx
        in tile_loop 0 height blockSize (\<lambda>y.
             tile_loop 0 width blockSize (\<lambda>x data.
               processBlockSmooth data x y (min blockSize (width - x))
                 (min blockSize (height - y)) width strength))
             data)"

section \<open>encrypt and decrypt\<close>

text \<open>
  The image handed to encrypt and decrypt, as the canvas sees it: its dimensions and the
  pixel buffer that \<open>getImageData\<close> returns once the image is drawn on the white canvas.
  The strength and the block size, which the source reads from the page, are parameters.
  The outcome is the buffer that goes on to the JPEG encoder (\<open>Done\<close>), the toast for an
  image without a size (\<open>InvalidSize\<close>), or the exception that the \<open>catch\<close> reports.
\<close>

record image =
  img_width :: int
  img_height :: int
  img_pixels :: pixels

datatype outcome = InvalidSize | Failed js_error | Done pixels

definition encrypt :: "image \<Rightarrow> real \<Rightarrow> int \<Rightarrow> outcome" where
  "encrypt img confusionStrength blockSize =
     (if img_width img = 0 \<or> img_height img = 0 then InvalidSize
      else
        let width = img_width img; height = img_height img; ctx = img_pixels img
        in case (if blockSize < 8
                 then applyGilbertConfusion ctx width height confusionStrength
                 else applyBlockConfusion ctx width height blockSize confusionStrength) of
             Inl e \<Rightarrow> Failed e
           | Inr ctx' \<Rightarrow> Done ctx')"

definition decrypt :: "image \<Rightarrow> outcome" where
  "decrypt img =
     (if img_width img = 0 \<or> img_height img = 0 then InvalidSize
      else
        let width = img_width img; height = img_height img; ctx = img_pixels img
        in if width \<le> 0 \<or> height \<le> 0 then Failed IndexSizeError
           else
             let imgdata = ctx;
                 imgdata2 = replicate (nat (4 * width * height)) (0 :: byte)
             in case gilbert2d width height of None \<Rightarrow> Failed NoReturn
                | Some curve \<Rightarrow>
                    let offset = decrypt_offset width height
                    in case try_loop 0 (width * height)
                              (deconfuse_step width height curve offset imgdata) imgdata2 of
                         Inl e \<Rightarrow> Failed e
                       | Inr ctx' \<Rightarrow> Done ctx')"

section \<open>The block transform as a map on samples\<close>

text \<open>
  The map of the claim, \<open>v \<mapsto> floor(v * smoothFactor + v * (1 - smoothFactor))\<close>, in the
  arithmetic of the source and stored into the clamped array: the blend of a sample with
  itself.
\<close>

definition self_blend :: "real \<Rightarrow> byte \<Rightarrow> byte" where
  "self_blend sf v =
     clamp_store \<lfloor>js_add (js_mul (real (unat v)) sf) (js_mul (real (unat v)) (js_sub 1 sf))\<rfloor>"

text \<open>
  The sample number \<open>k\<close> of a buffer is channel \<open>k mod 4\<close> of the pixel in column
  \<open>k div 4 mod width\<close> and row \<open>k div 4 div width\<close>. \<open>smooth_tile\<close> rewrites every colour sample
  of one tile by \<open>self_blend\<close>, with the smoothFactor of its place in the tile, and leaves
  the rest of the buffer alone; \<open>smooth_upto m\<close> does so for the first \<open>m\<close> pixels of the tile
  only, in the order of the loops.
\<close>

definition smooth_tile ::
  "pixels \<Rightarrow> int \<Rightarrow> int \<Rightarrow> int \<Rightarrow> int \<Rightarrow> int \<Rightarrow> real \<Rightarrow> pixels" where
  "smooth_tile data startX startY blockWidth blockHeight width strength =
     map (\<lambda>k. let v = data ! k; c = int k mod 4;
                  dx = int k div 4 mod width - startX;
                  dy = int k div 4 div width - startY
              in if c < 3 \<and> 0 \<le> dx \<and> dx < blockWidth \<and> 0 \<le> dy \<and> dy < blockHeight
                 then self_blend (smooth_factor dx dy blockWidth blockHeight strength) v else v)
       [0..<length data]"

definition smooth_upto ::
  "int \<Rightarrow> pixels \<Rightarrow> int \<Rightarrow> int \<Rightarrow> int \<Rightarrow> int \<Rightarrow> int \<Rightarrow> real \<Rightarrow> pixels" where
  "smooth_upto m data startX startY blockWidth blockHeight width strength =
     map (\<lambda>k. let v = data ! k; c = int k mod 4;
                  dx = int k div 4 mod width - startX;
                  dy = int k div 4 div width - startY
              in if c < 3 \<and> 0 \<le> dx \<and> dx < blockWidth \<and> 0 \<le> dy \<and> dy < blockHeight \<and>
                    dy * blockWidth + dx < m
                 then self_blend (smooth_factor dx dy blockWidth blockHeight strength) v else v)
       [0..<length data]"

text \<open>
  \<open>per_sample_map\<close> rewrites every colour sample of the buffer by \<open>self_blend\<close>, with the
  smoothFactor of its place in its tile (the tiles are blockSize wide and high, clipped at
  the right and bottom edges); \<open>smooth_where done\<close> does so for the pixels selected by
  \<open>done\<close> only.
\<close>

definition per_sample_map :: "pixels \<Rightarrow> int \<Rightarrow> int \<Rightarrow> int \<Rightarrow> real \<Rightarrow> pixels" where
  "per_sample_map data width height blockSize strength =
     map (\<lambda>k. let v = data ! k; c = int k mod 4;
                  px = int k div 4 mod width; py = int k div 4 div width;
                  dx = px mod blockSize; dy = py mod blockSize;
                  blockWidth = min blockSize (width - (px - dx));
                  blockHeight = min blockSize (height - (py - dy))
              in if c < 3
                 then self_blend (smooth_factor dx dy blockWidth blockHeight strength) v else v)
       [0..<length data]"

definition smooth_where ::
  "(int \<Rightarrow> int \<Rightarrow> bool) \<Rightarrow> pixels \<Rightarrow> int \<Rightarrow> int \<Rightarrow> int \<Rightarrow> real \<Rightarrow> pixels" where
  "smooth_where done data width height blockSize strength =
     map (\<lambda>k. let v = data ! k; c = int k mod 4;
                  px = int k div 4 mod width; py = int k div 4 div width;
                  dx = px mod blockSize; dy = py mod blockSize;
                  blockWidth = min blockSize (width - (px - dx));
                  blockHeight = min blockSize (height - (py - dy))
              in if c < 3 \<and> done px py
                 then self_blend (smooth_factor dx dy blockWidth blockHeight strength) v else v)
       [0..<length data]"

text \<open>The block transform applied twice.\<close>

definition apply_twice :: "pixels \<Rightarrow> int \<Rightarrow> int \<Rightarrow> int \<Rightarrow> real \<Rightarrow> js_error + pixels" where
  "apply_twice data width height blockSize strength =
     (case applyBlockConfusion data width height blockSize strength of
        Inl e \<Rightarrow> Inl e
      | Inr data' \<Rightarrow> applyBlockConfusion data' width height blockSize strength)"

section \<open>Unfolding generate2d\<close>


lemma run_calls_fun:
  "run_calls [] = Some"
  "run_calls ((x, y, ax, ay, bx, by) # rest) = (\<lambda>cs. generate2d x y ax ay bx by cs \<bind> run_calls rest)"
  by (rule ext, simp)+

lemma generate2d_sub_calls:
  "generate2d x y ax ay bx by coordinates =
     (if \<bar>bx + by\<bar> = 1 then Some (fill_loop 0 \<bar>ax + ay\<bar> x y (sgn ax) (sgn ay) coordinates)
      else if \<bar>ax + ay\<bar> = 1 then Some (fill_loop 0 \<bar>bx + by\<bar> x y (sgn bx) (sgn by) coordinates)
      else run_calls (sub_calls (x, y, ax, ay, bx, by)) coordinates)"
proof (cases "\<bar>bx + by\<bar> = 1")
  case True
  then show ?thesis by (subst generate2d.simps) (simp add: Let_def)
next
  case h: False
  show ?thesis
  proof (cases "\<bar>ax + ay\<bar> = 1")
    case True
    with h show ?thesis by (subst generate2d.simps) (simp add: Let_def)
  next
    case w: False
    show ?thesis
    proof (cases "2 * \<bar>ax + ay\<bar> > 3 * \<bar>bx + by\<bar>")
      case long: True
      show ?thesis
      proof (cases "\<bar>ax div 2 + ay div 2\<bar> mod 2 \<noteq> 0 \<and> \<bar>ax + ay\<bar> > 2")
        case True
        with h w long show ?thesis
          by (subst generate2d.simps) (simp add: sub_calls_def Let_def run_calls_fun del: run_calls.simps)
      next
        case False
        with h w long show ?thesis
          by (subst generate2d.simps) (simp add: sub_calls_def Let_def run_calls_fun del: run_calls.simps)
      qed
    next
      case std: False
      show ?thesis
      proof (cases "\<bar>bx div 2 + by div 2\<bar> mod 2 \<noteq> 0 \<and> \<bar>bx + by\<bar> > 2")
        case True
        with h w std show ?thesis
          by (subst generate2d.simps) (simp add: sub_calls_def Let_def run_calls_fun del: run_calls.simps)
      next
        case False
        with h w std show ?thesis
          by (subst generate2d.simps) (simp add: sub_calls_def Let_def run_calls_fun del: run_calls.simps)
      qed
    qed
  qed
qed

lemma fill_loop_line:
  "fill_loop i n x y dx dy cs = cs @ line (x, y) dx dy (nat (n - i))"
proof (induction i n x y dx dy cs rule: fill_loop.induct)
  case (1 i n x y dx dy cs)
  show ?case
  proof (cases "i < n")
    case True
    then have n: "nat (n - i) = Suc (nat (n - (i + 1)))" by simp
    have "line (x, y) dx dy (Suc (nat (n - (i + 1)))) = (x, y) # line (x + dx, y + dy) dx dy (nat (n - (i + 1)))"
      unfolding line_def
      by (simp add: upt_conv_Cons map_Suc_upt [symmetric] algebra_simps del: upt_Suc)
    with True 1 n show ?thesis by (subst fill_loop.simps) simp
  next
    case False
    then show ?thesis by (subst fill_loop.simps) (simp add: line_def)
  qed
qed

lemma sub_calls_horiz:
  "sub_calls (x, y, sa, 0, 0, sb) =
     (if \<bar>sb\<bar> = 1 \<or> \<bar>sa\<bar> = 1 then []
      else if 2 * \<bar>sa\<bar> > 3 * \<bar>sb\<bar> then
        [(x, y, adj_half sa, 0, 0, sb), (x + adj_half sa, y, sa - adj_half sa, 0, 0, sb)]
      else
        [(x, y, 0, adj_half sb, sa div 2, 0),
         (x, y + adj_half sb, sa, 0, 0, sb - adj_half sb),
         (x + (sa - sgn sa), y + (adj_half sb - sgn sb), 0, - adj_half sb, - (sa - sa div 2), 0)])"
  unfolding sub_calls_def adj_half_def Let_def prod.case
  apply (simp only: add_0_left add_0_right div_0 sgn_0 diff_0_right minus_zero abs_zero)
  apply (cases "\<bar>sb\<bar> = 1")
   apply (simp only: if_True simp_thms)
  apply (cases "\<bar>sa\<bar> = 1")
   apply (simp only: if_True if_False simp_thms)
  apply (cases "2 * \<bar>sa\<bar> > 3 * \<bar>sb\<bar>")
   apply (cases "\<bar>sa div 2\<bar> mod 2 \<noteq> 0 \<and> \<bar>sa\<bar> > 2")
    apply (simp only: if_True if_False simp_thms prod.case, simp)
   apply (simp only: if_True if_False simp_thms prod.case, simp)
  apply (cases "\<bar>sb div 2\<bar> mod 2 \<noteq> 0 \<and> \<bar>sb\<bar> > 2")
   apply (simp only: if_True if_False simp_thms prod.case, simp)
  apply (simp only: if_True if_False simp_thms prod.case, simp)
  done

lemma sub_calls_vert:
  "sub_calls (x, y, 0, sa, sb, 0) =
     (if \<bar>sb\<bar> = 1 \<or> \<bar>sa\<bar> = 1 then []
      else if 2 * \<bar>sa\<bar> > 3 * \<bar>sb\<bar> then
        [(x, y, 0, adj_half sa, sb, 0), (x, y + adj_half sa, 0, sa - adj_half sa, sb, 0)]
      else
        [(x, y, adj_half sb, 0, 0, sa div 2),
         (x + adj_half sb, y, 0, sa, sb - adj_half sb, 0),
         (x + (adj_half sb - sgn sb), y + (sa - sgn sa), - adj_half sb, 0, 0, - (sa - sa div 2))])"
  unfolding sub_calls_def adj_half_def Let_def prod.case
  apply (simp only: add_0_left add_0_right div_0 sgn_0 diff_0_right minus_zero abs_zero)
  apply (cases "\<bar>sb\<bar> = 1")
   apply (simp only: if_True simp_thms)
  apply (cases "\<bar>sa\<bar> = 1")
   apply (simp only: if_True if_False simp_thms)
  apply (cases "2 * \<bar>sa\<bar> > 3 * \<bar>sb\<bar>")
   apply (cases "\<bar>sa div 2\<bar> mod 2 \<noteq> 0 \<and> \<bar>sa\<bar> > 2")
    apply (simp only: if_True if_False simp_thms prod.case, simp)
   apply (simp only: if_True if_False simp_thms prod.case, simp)
  apply (cases "\<bar>sb div 2\<bar> mod 2 \<noteq> 0 \<and> \<bar>sb\<bar> > 2")
   apply (simp only: if_True if_False simp_thms prod.case, simp)
  apply (simp only: if_True if_False simp_thms prod.case, simp)
  done

lemma gen_unfold:
  "gen horiz p sa sb cs =
     (if \<bar>sb\<bar> = 1 then Some (cs @ line p (if horiz then sgn sa else 0) (if horiz then 0 else sgn sa) (nat \<bar>sa\<bar>))
      else if \<bar>sa\<bar> = 1 then Some (cs @ line p (if horiz then 0 else sgn sb) (if horiz then sgn sb else 0) (nat \<bar>sb\<bar>))
      else if 2 * \<bar>sa\<bar> > 3 * \<bar>sb\<bar> then
        do { c1 \<leftarrow> gen horiz p (adj_half sa) sb cs;
             gen horiz (shift horiz p (adj_half sa) 0) (sa - adj_half sa) sb c1 }
      else
        do { c1 \<leftarrow> gen (\<not> horiz) p (adj_half sb) (sa div 2) cs;
             c2 \<leftarrow> gen horiz (shift horiz p 0 (adj_half sb)) sa (sb - adj_half sb) c1;
             gen (\<not> horiz) (shift horiz p (sa - sgn sa) (adj_half sb - sgn sb))
               (- adj_half sb) (- (sa - sa div 2)) c2 })"
proof (cases horiz)
  case True
  then show ?thesis
    unfolding gen_def
    by (subst generate2d_sub_calls)
       (simp add: sub_calls_horiz run_calls_fun fill_loop_line shift_def gen_def
          del: run_calls.simps)
next
  case False
  then show ?thesis
    unfolding gen_def
    by (subst generate2d_sub_calls)
       (simp add: sub_calls_vert run_calls_fun fill_loop_line shift_def gen_def
          del: run_calls.simps)
qed

section \<open>Arithmetic of the splits\<close>


lemma adj_half_pos: "2 \<le> s \<Longrightarrow> 0 < adj_half s \<and> adj_half s < s"
  unfolding adj_half_def Let_def by (simp add: sgn_if) presburger

lemma adj_half_neg: "s \<le> - 2 \<Longrightarrow> s < adj_half s \<and> adj_half s < 0"
  unfolding adj_half_def Let_def by (simp add: sgn_if) presburger

lemma adj_half_even: "3 \<le> \<bar>s\<bar> \<Longrightarrow> even (adj_half s)"
  unfolding adj_half_def Let_def by (simp add: sgn_if) presburger

lemma adj_half_2: "\<bar>s\<bar> = 2 \<Longrightarrow> adj_half s = sgn s"
  unfolding adj_half_def Let_def by (auto simp: sgn_if abs_if split: if_splits)

lemma adj_half_rest_pos: "4 \<le> s \<Longrightarrow> 2 \<le> s - adj_half s"
  unfolding adj_half_def Let_def by (simp add: sgn_if) presburger

lemma adj_half_rest_neg: "s \<le> - 4 \<Longrightarrow> even s \<Longrightarrow> s - adj_half s \<le> - 2"
  unfolding adj_half_def Let_def by (simp add: sgn_if) presburger

lemma adj_half_ge2: "3 \<le> \<bar>s\<bar> \<Longrightarrow> 2 \<le> \<bar>adj_half s\<bar>"
  unfolding adj_half_def Let_def by (simp add: sgn_if) presburger

lemma div2_pos: "2 \<le> s \<Longrightarrow> 0 < s div 2 \<and> s div 2 < s" for s :: int
  by presburger

lemma div2_neg: "s \<le> - 2 \<Longrightarrow> s < s div 2 \<and> s div 2 < 0" for s :: int
  by presburger

section \<open>The base cases: straight lines\<close>


lemma successively_nth:
  "successively P xs \<Longrightarrow> Suc i < length xs \<Longrightarrow> P (xs ! i) (xs ! Suc i)"
proof (induction P xs arbitrary: i rule: successively.induct)
  case (3 P x y xs)
  then show ?case by (cases i) auto
qed auto

lemma line_length [simp]: "length (line p dx dy n) = n"
  by (simp add: line_def)

lemma line_nth: "k < n \<Longrightarrow> line p dx dy n ! k = (fst p + int k * dx, snd p + int k * dy)"
  by (simp add: line_def)

lemma line_hd: "0 < n \<Longrightarrow> hd (line p dx dy n) = p"
  by (simp add: line_def hd_map upt_conv_Cons)

lemma line_last: "0 < n \<Longrightarrow> last (line p dx dy n) = (fst p + (int n - 1) * dx, snd p + (int n - 1) * dy)"
  by (cases n) (simp_all add: line_def)

lemma line_set: "set (line p dx dy n) = (\<lambda>k. (fst p + int k * dx, snd p + int k * dy)) ` {0..<n}"
  by (simp add: line_def)

lemma line_distinct: "\<bar>dx\<bar> + \<bar>dy\<bar> = 1 \<Longrightarrow> distinct (line p dx dy n)"
  unfolding line_def by (auto simp: distinct_map inj_on_def)

lemma line_rook: "\<bar>dx\<bar> + \<bar>dy\<bar> = 1 \<Longrightarrow> successively rook_step (line p dx dy n)"
proof (induction n)
  case 0
  then show ?case by (simp add: line_def)
next
  case (Suc n)
  have "line p dx dy (Suc n) = line p dx dy n @ [(fst p + int n * dx, snd p + int n * dy)]"
    by (simp add: line_def)
  with Suc show ?case
    by (cases n) (auto simp: successively_append_iff line_last rook_step_def algebra_simps line_def)
qed

lemma rook_king: "rook_step c d \<Longrightarrow> king_step c d"
  by (auto simp: rook_step_def king_step_def)

lemma successively_rook_king: "successively rook_step ys \<Longrightarrow> successively king_step ys"
  by (erule successively_mono) (rule rook_king)

lemma in_span_iff: "s \<noteq> 0 \<Longrightarrow> in_span s d \<longleftrightarrow> (\<exists>k<nat \<bar>s\<bar>. d = int k * sgn s)"
proof
  assume s: "s \<noteq> 0" and d: "in_span s d"
  then have "nat \<bar>d\<bar> < nat \<bar>s\<bar> \<and> d = int (nat \<bar>d\<bar>) * sgn s"
    by (auto simp: in_span_def sgn_if)
  then show "\<exists>k<nat \<bar>s\<bar>. d = int k * sgn s" by blast
next
  assume "s \<noteq> 0" and "\<exists>k<nat \<bar>s\<bar>. d = int k * sgn s"
  then show "in_span s d" by (auto simp: in_span_def sgn_if)
qed

lemma in_span_diff_iff: "s \<noteq> 0 \<Longrightarrow> in_span s (c - q) \<longleftrightarrow> (\<exists>k\<in>{0..<nat \<bar>s\<bar>}. c = q + int k * sgn s)"
proof -
  assume s: "s \<noteq> 0"
  have "(c - q = int k * sgn s) = (c = q + int k * sgn s)" for k by auto
  then show ?thesis unfolding in_span_iff [OF s] by (simp add: Bex_def)
qed

lemma good_row:
  assumes "reach sa sb" "\<bar>sb\<bar> = 1"
  shows "good horiz p sa sb (line p (if horiz then sgn sa else 0) (if horiz then 0 else sgn sa) (nat \<bar>sa\<bar>))"
proof -
  from assms have sa: "sa \<noteq> 0" and sb: "sb = sgn sa" "sgn sb = sb" and n: "0 < nat \<bar>sa\<bar>"
    by (auto simp: reach_def sgn_if)
  have u: "\<bar>if horiz then sgn sa else 0\<bar> + \<bar>if horiz then 0 else sgn sa\<bar> = 1"
    using sa by (simp add: sgn_if)
  have len: "nat \<bar>sa\<bar> = nat (sa * sb)"
    using sa sb by (simp add: sgn_if)
  have set: "set (line p (if horiz then sgn sa else 0) (if horiz then 0 else sgn sa) (nat \<bar>sa\<bar>))
             = {c. in_rect horiz p sa sb c}"
  proof -
    have z: "in_span sb d \<longleftrightarrow> d = 0" for d
      using assms by (auto simp: in_span_def reach_def)
    show ?thesis
      unfolding line_set in_rect_def z in_span_diff_iff [OF sa]
      by (cases horiz) (auto simp: image_iff)
  qed
  have "int (nat \<bar>sa\<bar>) - 1 = \<bar>sa\<bar> - 1" using sa by simp
  then have lst: "last (line p (if horiz then sgn sa else 0) (if horiz then 0 else sgn sa) (nat \<bar>sa\<bar>))
             = end_cell horiz p sa sb"
    using sa sb assms(2) unfolding line_last [OF n] end_cell_def shift_def
    by (auto simp: sgn_if algebra_simps)
  show ?thesis
    unfolding good_def
    using len set lst line_distinct [OF u] line_rook [OF u] line_hd [OF n]
    by (simp add: successively_rook_king)
qed

lemma good_col:
  assumes "reach sa sb" "\<bar>sa\<bar> = 1"
  shows "good horiz p sa sb (line p (if horiz then 0 else sgn sb) (if horiz then sgn sb else 0) (nat \<bar>sb\<bar>))"
proof -
  from assms have sb: "sb \<noteq> 0" and sa: "sa = sgn sb" "sgn sa = sa" and n: "0 < nat \<bar>sb\<bar>"
    by (auto simp: reach_def sgn_if)
  have u: "\<bar>if horiz then 0 else sgn sb\<bar> + \<bar>if horiz then sgn sb else 0\<bar> = 1"
    using sb by (simp add: sgn_if)
  have len: "nat \<bar>sb\<bar> = nat (sa * sb)"
    using sa sb by (simp add: sgn_if)
  have set: "set (line p (if horiz then 0 else sgn sb) (if horiz then sgn sb else 0) (nat \<bar>sb\<bar>))
             = {c. in_rect horiz p sa sb c}"
  proof -
    have z: "in_span sa d \<longleftrightarrow> d = 0" for d
      using assms by (auto simp: in_span_def reach_def)
    show ?thesis
      unfolding line_set in_rect_def z in_span_diff_iff [OF sb]
      by (cases horiz) (auto simp: image_iff)
  qed
  have "int (nat \<bar>sb\<bar>) - 1 = \<bar>sb\<bar> - 1" using sb by simp
  then have lst: "last (line p (if horiz then 0 else sgn sb) (if horiz then sgn sb else 0) (nat \<bar>sb\<bar>))
             = end_cell horiz p sa sb"
    using sa sb assms(2) unfolding line_last [OF n] end_cell_def shift_def
    by (auto simp: sgn_if algebra_simps)
  show ?thesis
    unfolding good_def
    using len set lst line_distinct [OF u] line_rook [OF u] line_hd [OF n]
    by (simp add: successively_rook_king)
qed

section \<open>The long split\<close>


lemma in_rect_long:
  assumes "(0 < s2 \<and> s2 < sa) \<or> (sa < s2 \<and> s2 < 0)"
  shows "in_rect horiz p sa sb c \<longleftrightarrow>
           in_rect horiz p s2 sb c \<or> in_rect horiz (shift horiz p s2 0) (sa - s2) sb c"
    and "\<not> (in_rect horiz p s2 sb c \<and> in_rect horiz (shift horiz p s2 0) (sa - s2) sb c)"
  using assms by (cases horiz; auto simp: in_rect_def in_span_def shift_def)+

lemma good_nonempty: "good horiz p sa sb ys \<Longrightarrow> reach sa sb \<Longrightarrow> ys \<noteq> []"
proof -
  assume g: "good horiz p sa sb ys" and r: "reach sa sb"
  from r have "0 < sa * sb"
    by (auto simp: reach_def intro: mult_pos_pos mult_neg_neg)
  with g show ?thesis by (auto simp: good_def)
qed

lemma reach_long:
  assumes "reach sa sb" "2 \<le> \<bar>sb\<bar>" "2 * \<bar>sa\<bar> > 3 * \<bar>sb\<bar>"
  shows "reach (adj_half sa) sb" and "reach (sa - adj_half sa) sb"
    and "\<bar>adj_half sa\<bar> < \<bar>sa\<bar>" and "\<bar>sa - adj_half sa\<bar> < \<bar>sa\<bar>"
    and "even (adj_half sa)" and "2 \<le> \<bar>adj_half sa\<bar>" and "2 \<le> \<bar>sa - adj_half sa\<bar>"
    and "(0 < adj_half sa \<and> adj_half sa < sa) \<or> (sa < adj_half sa \<and> adj_half sa < 0)"
    and "sgn (adj_half sa) = sgn sa" and "sgn (sa - adj_half sa) = sgn sa"
proof -
  from assms consider (pos) "4 \<le> sa" "0 < sb" | (neg) "sa \<le> - 4" "even sa" "sb < 0"
    by (auto simp: reach_def)
  then have "reach (adj_half sa) sb \<and> reach (sa - adj_half sa) sb \<and>
     \<bar>adj_half sa\<bar> < \<bar>sa\<bar> \<and> \<bar>sa - adj_half sa\<bar> < \<bar>sa\<bar> \<and>
     even (adj_half sa) \<and> 2 \<le> \<bar>adj_half sa\<bar> \<and> 2 \<le> \<bar>sa - adj_half sa\<bar> \<and>
     ((0 < adj_half sa \<and> adj_half sa < sa) \<or> (sa < adj_half sa \<and> adj_half sa < 0)) \<and>
     sgn (adj_half sa) = sgn sa \<and> sgn (sa - adj_half sa) = sgn sa"
  proof cases
    case pos
    then show ?thesis
      using adj_half_pos [of sa] adj_half_even [of sa] adj_half_rest_pos [of sa] adj_half_ge2 [of sa]
      by (auto simp: reach_def)
  next
    case neg
    then show ?thesis
      using adj_half_neg [of sa] adj_half_even [of sa] adj_half_rest_neg [of sa] adj_half_ge2 [of sa]
      by (auto simp: reach_def)
  qed
  then show "reach (adj_half sa) sb" and "reach (sa - adj_half sa) sb"
    and "\<bar>adj_half sa\<bar> < \<bar>sa\<bar>" and "\<bar>sa - adj_half sa\<bar> < \<bar>sa\<bar>"
    and "even (adj_half sa)" and "2 \<le> \<bar>adj_half sa\<bar>" and "2 \<le> \<bar>sa - adj_half sa\<bar>"
    and "(0 < adj_half sa \<and> adj_half sa < sa) \<or> (sa < adj_half sa \<and> adj_half sa < 0)"
    and "sgn (adj_half sa) = sgn sa" and "sgn (sa - adj_half sa) = sgn sa"
    by blast+
qed

lemma nat_mult_split:
  "0 \<le> u * sb \<Longrightarrow> 0 \<le> v * sb \<Longrightarrow> nat (u * sb) + nat (v * sb) = nat ((u + v) * sb)" for u v sb :: int
  by (simp add: nat_add_distrib [symmetric] algebra_simps)

lemma reach_prod: "reach sa sb \<Longrightarrow> 0 \<le> sa * sb"
  by (auto simp: reach_def intro: mult_nonneg_nonneg mult_nonpos_nonpos)

lemma end_cell_long:
  assumes "even s2" "2 \<le> \<bar>sa - s2\<bar>" "sgn (sa - s2) = sgn sa" "2 \<le> \<bar>s2\<bar>" "sgn s2 = sgn sa"
  shows "end_cell horiz (shift horiz p s2 0) (sa - s2) sb = end_cell horiz p sa sb"
    and "rook_step (end_cell horiz p s2 sb) (shift horiz p s2 0)"
  using assms
  by (cases horiz; auto simp: end_cell_def shift_def rook_step_def sgn_if split: if_splits)+

lemma diag_long:
  assumes "even s2" "2 \<le> \<bar>sa - s2\<bar>" "\<bar>sa - s2\<bar> < \<bar>sa\<bar>" "\<not> diag sa sb"
  shows "\<not> diag s2 sb" and "\<not> diag (sa - s2) sb"
  using assms by (auto simp: diag_def)

lemma good_long:
  assumes r: "reach sa sb" and sb: "2 \<le> \<bar>sb\<bar>" and long: "2 * \<bar>sa\<bar> > 3 * \<bar>sb\<bar>"
    and g1: "good horiz p (adj_half sa) sb ys1"
    and g2: "good horiz (shift horiz p (adj_half sa) 0) (sa - adj_half sa) sb ys2"
  shows "good horiz p sa sb (ys1 @ ys2)"
proof -
  note f = reach_long [OF r sb long]
  have ne: "ys1 \<noteq> []" "ys2 \<noteq> []"
    using good_nonempty [OF g1 f(1)] good_nonempty [OF g2 f(2)] by auto
  have len: "length (ys1 @ ys2) = nat (sa * sb)"
    using g1 g2 nat_mult_split [OF reach_prod [OF f(1)] reach_prod [OF f(2)]]
    by (simp add: good_def)
  have set: "set (ys1 @ ys2) = {c. in_rect horiz p sa sb c}"
    using g1 g2 in_rect_long(1) [OF f(8), of horiz p sb] by (auto simp: good_def)
  have dist: "distinct (ys1 @ ys2)"
    using g1 g2 in_rect_long(2) [OF f(8), of horiz p sb] by (auto simp: good_def)
  have hd: "hd (ys1 @ ys2) = p" using g1 ne by (simp add: good_def)
  have lst: "last (ys1 @ ys2) = end_cell horiz p sa sb"
    using g2 ne end_cell_long(1) [OF f(5) f(7) f(10) f(6) f(9)] by (simp add: good_def)
  have junction: "rook_step (last ys1) (hd ys2)"
    using g1 g2 end_cell_long(2) [OF f(5) f(7) f(10) f(6) f(9)] by (simp add: good_def)
  have king: "successively king_step (ys1 @ ys2)"
    using g1 g2 junction by (simp add: good_def successively_append_iff rook_king)
  have rook: "successively rook_step (ys1 @ ys2)" if "\<not> diag sa sb"
    using g1 g2 junction diag_long [OF f(5) f(7) f(4) that]
    by (simp add: good_def successively_append_iff)
  show ?thesis
    unfolding good_def using len set dist hd lst king rook by blast
qed

section \<open>The standard split\<close>


lemma reach_std:
  assumes "reach sa sb" "2 \<le> \<bar>sa\<bar>" "2 \<le> \<bar>sb\<bar>" "\<not> 2 * \<bar>sa\<bar> > 3 * \<bar>sb\<bar>"
  shows "std_split sa sb (adj_half sb) (sa div 2)"
proof -
  from assms consider (pos) "2 \<le> sa" "2 \<le> sb" | (neg) "sa \<le> - 2" "even sa" "sb \<le> - 2"
    by (auto simp: reach_def)
  then show ?thesis
  proof cases
    case pos
    have "sb = 2 \<or> 3 \<le> sb" using pos by auto
    then show ?thesis
    proof
      assume "sb = 2"
      moreover from this assms pos have "sa = 2 \<or> sa = 3" by auto
      ultimately show ?thesis
        using adj_half_2 [of sb] by (auto simp: std_split_def)
    next
      assume "3 \<le> sb"
      then show ?thesis
        using pos adj_half_pos [of sb] adj_half_even [of sb] div2_pos [of sa]
        by (auto simp: std_split_def)
    qed
  next
    case neg
    have "sb = - 2 \<or> sb \<le> - 3" using neg by auto
    then show ?thesis
    proof
      assume "sb = - 2"
      moreover from this assms neg have "sa = - 2" by (auto elim!: evenE)
      ultimately show ?thesis
        using adj_half_2 [of sb] by (auto simp: std_split_def)
    next
      assume "sb \<le> - 3"
      then show ?thesis
        using neg adj_half_neg [of sb] adj_half_even [of sb] div2_neg [of sa]
        by (auto simp: std_split_def)
    qed
  qed
qed

lemma std_reach:
  assumes "std_split sa sb t2 a2"
  shows "reach t2 a2" and "reach sa (sb - t2)" and "reach (- t2) (- (sa - a2))"
    and "\<bar>t2\<bar> + \<bar>a2\<bar> < \<bar>sa\<bar> + \<bar>sb\<bar>" and "\<bar>sa\<bar> + \<bar>sb - t2\<bar> < \<bar>sa\<bar> + \<bar>sb\<bar>"
    and "\<bar>- t2\<bar> + \<bar>- (sa - a2)\<bar> < \<bar>sa\<bar> + \<bar>sb\<bar>"
  using assms by (auto simp: std_split_def reach_def)

lemma in_rect_std:
  assumes "std_split sa sb t2 a2"
  shows "in_rect horiz p sa sb c \<longleftrightarrow>
           in_rect (\<not> horiz) p t2 a2 c \<or>
           in_rect horiz (shift horiz p 0 t2) sa (sb - t2) c \<or>
           in_rect (\<not> horiz) (shift horiz p (sa - sgn sa) (t2 - sgn sb)) (- t2) (- (sa - a2)) c"
    and "\<not> (in_rect (\<not> horiz) p t2 a2 c \<and> in_rect horiz (shift horiz p 0 t2) sa (sb - t2) c)"
    and "\<not> (in_rect (\<not> horiz) p t2 a2 c \<and>
            in_rect (\<not> horiz) (shift horiz p (sa - sgn sa) (t2 - sgn sb)) (- t2) (- (sa - a2)) c)"
    and "\<not> (in_rect horiz (shift horiz p 0 t2) sa (sb - t2) c \<and>
            in_rect (\<not> horiz) (shift horiz p (sa - sgn sa) (t2 - sgn sb)) (- t2) (- (sa - a2)) c)"
proof -
  from assms consider
    (pos) "0 < sa" "0 < sb" "0 < t2" "t2 < sb" "0 < a2" "a2 < sa"
  | (neg) "sa < 0" "sb < 0" "sb < t2" "t2 < 0" "sa < a2" "a2 < 0"
    by (auto simp: std_split_def)
  then have "(in_rect horiz p sa sb c \<longleftrightarrow>
           in_rect (\<not> horiz) p t2 a2 c \<or>
           in_rect horiz (shift horiz p 0 t2) sa (sb - t2) c \<or>
           in_rect (\<not> horiz) (shift horiz p (sa - sgn sa) (t2 - sgn sb)) (- t2) (- (sa - a2)) c) \<and>
      \<not> (in_rect (\<not> horiz) p t2 a2 c \<and> in_rect horiz (shift horiz p 0 t2) sa (sb - t2) c) \<and>
      \<not> (in_rect (\<not> horiz) p t2 a2 c \<and>
            in_rect (\<not> horiz) (shift horiz p (sa - sgn sa) (t2 - sgn sb)) (- t2) (- (sa - a2)) c) \<and>
      \<not> (in_rect horiz (shift horiz p 0 t2) sa (sb - t2) c \<and>
            in_rect (\<not> horiz) (shift horiz p (sa - sgn sa) (t2 - sgn sb)) (- t2) (- (sa - a2)) c)"
  proof cases
    case pos
    then show ?thesis
      by (cases horiz) (simp_all add: in_rect_def in_span_def shift_def, linarith+)
  next
    case neg
    then show ?thesis
      by (cases horiz) (simp_all add: in_rect_def in_span_def shift_def, linarith+)
  qed
  then show "in_rect horiz p sa sb c \<longleftrightarrow>
           in_rect (\<not> horiz) p t2 a2 c \<or>
           in_rect horiz (shift horiz p 0 t2) sa (sb - t2) c \<or>
           in_rect (\<not> horiz) (shift horiz p (sa - sgn sa) (t2 - sgn sb)) (- t2) (- (sa - a2)) c"
    and "\<not> (in_rect (\<not> horiz) p t2 a2 c \<and> in_rect horiz (shift horiz p 0 t2) sa (sb - t2) c)"
    and "\<not> (in_rect (\<not> horiz) p t2 a2 c \<and>
            in_rect (\<not> horiz) (shift horiz p (sa - sgn sa) (t2 - sgn sb)) (- t2) (- (sa - a2)) c)"
    and "\<not> (in_rect horiz (shift horiz p 0 t2) sa (sb - t2) c \<and>
            in_rect (\<not> horiz) (shift horiz p (sa - sgn sa) (t2 - sgn sb)) (- t2) (- (sa - a2)) c)"
    by blast+
qed

lemma std_junction12:
  assumes "std_split sa sb t2 a2"
  shows "rook_step (end_cell (\<not> horiz) p t2 a2) (shift horiz p 0 t2)"
  using assms
  by (cases horiz; auto simp: std_split_def end_cell_def shift_def rook_step_def)

lemma end_cell_wide:
  "2 \<le> \<bar>sa\<bar> \<Longrightarrow> end_cell horiz q sa sb =
     (if odd sa \<and> \<bar>sb\<bar> = 2 then shift horiz q (sa - 2 * sgn sa) 0
      else shift horiz q (sa - sgn sa) 0)"
  by (simp add: end_cell_def)

lemma junction23_king:
  assumes "2 \<le> \<bar>sa\<bar>" "sb \<noteq> 0"
  shows "king_step (end_cell horiz (shift horiz p 0 t2) sa sb')
           (shift horiz p (sa - sgn sa) (t2 - sgn sb))"
  unfolding end_cell_wide [OF assms(1)] using assms
  by (cases horiz) (simp_all add: shift_def king_step_def sgn_if)

lemma junction23_rook:
  assumes "2 \<le> \<bar>sa\<bar>" "sb \<noteq> 0" "\<not> (odd sa \<and> \<bar>sb'\<bar> = 2)"
  shows "rook_step (end_cell horiz (shift horiz p 0 t2) sa sb')
           (shift horiz p (sa - sgn sa) (t2 - sgn sb))"
  unfolding end_cell_wide [OF assms(1)] using assms
  by (cases horiz) (simp_all add: shift_def rook_step_def sgn_if)

lemma std_sizes:
  assumes "std_split sa sb t2 a2"
  shows "2 \<le> \<bar>sa\<bar>" and "sb \<noteq> 0" and "\<not> diag sa sb \<Longrightarrow> \<not> (odd sa \<and> \<bar>sb - t2\<bar> = 2)"
proof -
  show "2 \<le> \<bar>sa\<bar>" and "sb \<noteq> 0"
    using assms by (auto simp: std_split_def)
  assume "\<not> diag sa sb"
  then have nd: "\<not> (odd sa \<and> even sb \<and> 4 \<le> \<bar>sb\<bar>)"
    using \<open>2 \<le> \<bar>sa\<bar>\<close> unfolding diag_def by presburger
  from assms consider (pos2) "sb = 2" "t2 = 1" | (pos) "3 \<le> sb" "even t2" "0 < t2" "t2 < sb"
    | (neg) "even sa"
    unfolding std_split_def by blast
  then show "\<not> (odd sa \<and> \<bar>sb - t2\<bar> = 2)"
  proof cases
    case pos2
    then show ?thesis by simp
  next
    case pos
    show ?thesis
    proof
      assume a: "odd sa \<and> \<bar>sb - t2\<bar> = 2"
      with pos have "sb = t2 + 2" by simp
      with pos a have "even sb \<and> 4 \<le> \<bar>sb\<bar>" by presburger
      with nd a show False by blast
    qed
  next
    case neg
    then show ?thesis by simp
  qed
qed

lemma std_junction23:
  assumes "std_split sa sb t2 a2"
  shows "king_step (end_cell horiz (shift horiz p 0 t2) sa (sb - t2))
           (shift horiz p (sa - sgn sa) (t2 - sgn sb))"
    and "\<not> diag sa sb \<Longrightarrow>
         rook_step (end_cell horiz (shift horiz p 0 t2) sa (sb - t2))
           (shift horiz p (sa - sgn sa) (t2 - sgn sb))"
  using junction23_king [OF std_sizes(1,2) [OF assms]]
    junction23_rook [OF std_sizes(1,2) [OF assms] std_sizes(3) [OF assms]]
  by blast+

lemma std_end:
  assumes "std_split sa sb t2 a2"
  shows "end_cell (\<not> horiz) (shift horiz p (sa - sgn sa) (t2 - sgn sb)) (- t2) (- (sa - a2))
         = end_cell horiz p sa sb"
  using assms
  by (cases horiz; auto simp: std_split_def end_cell_def shift_def)

lemma std_diag:
  assumes "std_split sa sb t2 a2" "\<not> diag sa sb"
  shows "\<not> diag t2 a2" and "\<not> diag sa (sb - t2)" and "\<not> diag (- t2) (- (sa - a2))"
  using assms by (auto simp: std_split_def diag_def)

lemma std_length:
  assumes "std_split sa sb t2 a2"
  shows "nat (t2 * a2) + nat (sa * (sb - t2)) + nat (- t2 * - (sa - a2)) = nat (sa * sb)"
proof -
  note r = std_reach(1-3) [OF assms]
  have "nat (t2 * a2) + nat (sa * (sb - t2)) + nat (- t2 * - (sa - a2))
        = nat (t2 * a2 + sa * (sb - t2) + - t2 * - (sa - a2))"
    using reach_prod [OF r(1)] reach_prod [OF r(2)] reach_prod [OF r(3)]
    by (simp only: nat_add_distrib add_nonneg_nonneg)
  also have "t2 * a2 + sa * (sb - t2) + - t2 * - (sa - a2) = sa * sb"
    by (simp add: algebra_simps)
  finally show ?thesis .
qed

lemma good_std:
  assumes s: "std_split sa sb t2 a2"
    and g1: "good (\<not> horiz) p t2 a2 ys1"
    and g2: "good horiz (shift horiz p 0 t2) sa (sb - t2) ys2"
    and g3: "good (\<not> horiz) (shift horiz p (sa - sgn sa) (t2 - sgn sb)) (- t2) (- (sa - a2)) ys3"
  shows "good horiz p sa sb (ys1 @ ys2 @ ys3)"
proof -
  note r = std_reach(1-3) [OF s]
  have ne: "ys1 \<noteq> []" "ys2 \<noteq> []" "ys3 \<noteq> []"
    using good_nonempty [OF g1 r(1)] good_nonempty [OF g2 r(2)] good_nonempty [OF g3 r(3)]
    by auto
  have len: "length (ys1 @ ys2 @ ys3) = nat (sa * sb)"
    using g1 g2 g3 std_length [OF s] by (simp add: good_def)
  have set: "set (ys1 @ ys2 @ ys3) = {c. in_rect horiz p sa sb c}"
    using g1 g2 g3 in_rect_std(1) [OF s, of horiz p] by (auto simp: good_def)
  have dist: "distinct (ys1 @ ys2 @ ys3)"
    using g1 g2 g3 in_rect_std(2-4) [OF s, of horiz p] by (auto simp: good_def)
  have hd: "hd (ys1 @ ys2 @ ys3) = p" using g1 ne by (simp add: good_def)
  have lst: "last (ys1 @ ys2 @ ys3) = end_cell horiz p sa sb"
    using g3 ne std_end [OF s, of horiz p] by (simp add: good_def)
  have j12: "rook_step (last ys1) (hd ys2)"
    using g1 g2 std_junction12 [OF s, of horiz p] by (simp add: good_def)
  have j23: "king_step (last ys2) (hd ys3)"
    using g2 g3 std_junction23(1) [OF s, of horiz p] by (simp add: good_def)
  have j23': "rook_step (last ys2) (hd ys3)" if "\<not> diag sa sb"
    using g2 g3 std_junction23(2) [OF s that, of horiz p] by (simp add: good_def)
  have king: "successively king_step (ys1 @ ys2 @ ys3)"
    using g1 g2 g3 j12 j23 ne by (simp add: good_def successively_append_iff rook_king)
  have rook: "successively rook_step (ys1 @ ys2 @ ys3)" if "\<not> diag sa sb"
    using g1 g2 g3 j12 j23' [OF that] ne std_diag [OF s that]
    by (simp add: good_def successively_append_iff)
  show ?thesis
    unfolding good_def using len set dist hd lst king rook by blast
qed

section \<open>The curve of every reachable call\<close>


lemma gen_good:
  "reach sa sb \<Longrightarrow> \<exists>ys. gen horiz p sa sb cs = Some (cs @ ys) \<and> good horiz p sa sb ys"
proof (induction "nat (\<bar>sa\<bar> + \<bar>sb\<bar>)" arbitrary: horiz p sa sb cs rule: less_induct)
  case less
  note r = less.prems
  show ?case
  proof (cases "\<bar>sb\<bar> = 1")
    case True
    then show ?thesis
      using good_row [OF r True] by (subst gen_unfold) simp
  next
    case sb1: False
    show ?thesis
    proof (cases "\<bar>sa\<bar> = 1")
      case True
      then show ?thesis
        using good_col [OF r True] sb1 by (subst gen_unfold) simp
    next
      case sa1: False
      from r sb1 sa1 have sz: "2 \<le> \<bar>sa\<bar>" "2 \<le> \<bar>sb\<bar>"
        by (auto simp: reach_def)
      show ?thesis
      proof (cases "2 * \<bar>sa\<bar> > 3 * \<bar>sb\<bar>")
        case True
        note f = reach_long [OF r sz(2) True]
        from f(3) have m1: "nat (\<bar>adj_half sa\<bar> + \<bar>sb\<bar>) < nat (\<bar>sa\<bar> + \<bar>sb\<bar>)" by simp
        from f(4) have m2: "nat (\<bar>sa - adj_half sa\<bar> + \<bar>sb\<bar>) < nat (\<bar>sa\<bar> + \<bar>sb\<bar>)" by simp
        from less.hyps [OF m1 f(1)] obtain ys1 where
          1: "gen horiz p (adj_half sa) sb cs = Some (cs @ ys1)" "good horiz p (adj_half sa) sb ys1"
          by blast
        from less.hyps [OF m2 f(2)] obtain ys2 where
          2: "gen horiz (shift horiz p (adj_half sa) 0) (sa - adj_half sa) sb (cs @ ys1)
              = Some ((cs @ ys1) @ ys2)"
            "good horiz (shift horiz p (adj_half sa) 0) (sa - adj_half sa) sb ys2"
          by blast
        have "gen horiz p sa sb cs = Some (cs @ ys1 @ ys2)"
          using sb1 sa1 True 1(1) 2(1) by (subst gen_unfold) simp
        with good_long [OF r sz(2) True 1(2) 2(2)] show ?thesis by blast
      next
        case False
        note s = reach_std [OF r sz False]
        note f = std_reach [OF s]
        from f(4) have m1: "nat (\<bar>adj_half sb\<bar> + \<bar>sa div 2\<bar>) < nat (\<bar>sa\<bar> + \<bar>sb\<bar>)" by simp
        from f(5) have m2: "nat (\<bar>sa\<bar> + \<bar>sb - adj_half sb\<bar>) < nat (\<bar>sa\<bar> + \<bar>sb\<bar>)" by simp
        from f(6) have m3: "nat (\<bar>- adj_half sb\<bar> + \<bar>- (sa - sa div 2)\<bar>) < nat (\<bar>sa\<bar> + \<bar>sb\<bar>)"
          by simp
        from less.hyps [OF m1 f(1)] obtain ys1 where
          1: "gen (\<not> horiz) p (adj_half sb) (sa div 2) cs = Some (cs @ ys1)"
             "good (\<not> horiz) p (adj_half sb) (sa div 2) ys1"
          by blast
        from less.hyps [OF m2 f(2)] obtain ys2 where
          2: "gen horiz (shift horiz p 0 (adj_half sb)) sa (sb - adj_half sb) (cs @ ys1)
              = Some ((cs @ ys1) @ ys2)"
             "good horiz (shift horiz p 0 (adj_half sb)) sa (sb - adj_half sb) ys2"
          by blast
        from less.hyps [OF m3 f(3)] obtain ys3 where
          3: "gen (\<not> horiz) (shift horiz p (sa - sgn sa) (adj_half sb - sgn sb))
                (- adj_half sb) (- (sa - sa div 2)) ((cs @ ys1) @ ys2)
              = Some (((cs @ ys1) @ ys2) @ ys3)"
             "good (\<not> horiz) (shift horiz p (sa - sgn sa) (adj_half sb - sgn sb))
                (- adj_half sb) (- (sa - sa div 2)) ys3"
          by blast
        have "gen horiz p sa sb cs = Some (cs @ ys1 @ ys2 @ ys3)"
          using sb1 sa1 False 1(1) 2(1) 3(1) by (subst gen_unfold) simp
        with good_std [OF s 1(2) 2(2) 3(2)] show ?thesis by blast
      qed
    qed
  qed
qed

lemma gilbert2d_gen:
  "gilbert2d W H = (if W \<ge> H then gen True (0, 0) W H [] else gen False (0, 0) H W [])"
  by (simp add: gilbert2d_def gen_def)

lemma in_rect_grid:
  "0 < W \<Longrightarrow> 0 < H \<Longrightarrow>
   {c. in_rect (W \<ge> H) (0, 0) (if W \<ge> H then W else H) (if W \<ge> H then H else W) c}
     = {0..<W} \<times> {0..<H}"
  by (auto simp: in_rect_def in_span_def)

lemma gilbert2d_good:
  assumes "1 \<le> W" "1 \<le> H"
  shows "\<exists>ys. gilbert2d W H = Some ys \<and>
           good (W \<ge> H) (0, 0) (if W \<ge> H then W else H) (if W \<ge> H then H else W) ys"
proof -
  have "reach (if W \<ge> H then W else H) (if W \<ge> H then H else W)"
    using assms by (simp add: reach_def)
  from gen_good [OF this, of "W \<ge> H" "(0, 0)" "[]"] show ?thesis
    by (simp add: gilbert2d_gen split: if_splits)
qed

lemma king_cheb: "king_step c d \<Longrightarrow> c \<noteq> d \<Longrightarrow> chebyshev c d = 1"
  by (cases c; cases d) (auto simp: king_step_def chebyshev_def max_def)

section \<open>The recursion of generate2d\<close>


lemma sub_call_ok:
  assumes "call_ok c" "c' \<in> set (sub_calls c)"
  shows "call_ok c' \<and> call_w c' + call_h c' < call_w c + call_h c"
proof -
  obtain x y ax ay bx "by" where c: "c = (x, y, ax, ay, bx, by)" by (cases c)
  from assms(1) consider (h) "ay = 0" "bx = 0" "reach ax by" | (v) "ax = 0" "by = 0" "reach ay bx"
    by (auto simp: call_ok_def c)
  then show ?thesis
  proof cases
    case h
    from assms(2) have ne: "\<bar>by\<bar> \<noteq> 1" "\<bar>ax\<bar> \<noteq> 1"
      by (auto simp: c h sub_calls_horiz split: if_splits)
    with h have sz: "2 \<le> \<bar>ax\<bar>" "2 \<le> \<bar>by\<bar>" by (auto simp: reach_def)
    show ?thesis
    proof (cases "2 * \<bar>ax\<bar> > 3 * \<bar>by\<bar>")
      case True
      note f = reach_long [OF h(3) sz(2) True]
      from assms(2) True ne f(1-4) show ?thesis
        by (auto simp: c h sub_calls_horiz call_ok_def call_w_def call_h_def)
    next
      case False
      note f = std_reach [OF reach_std [OF h(3) sz False]]
      from assms(2) False ne f show ?thesis
        by (auto simp: c h sub_calls_horiz call_ok_def call_w_def call_h_def)
    qed
  next
    case v
    from assms(2) have ne: "\<bar>bx\<bar> \<noteq> 1" "\<bar>ay\<bar> \<noteq> 1"
      by (auto simp: c v sub_calls_vert split: if_splits)
    with v have sz: "2 \<le> \<bar>ay\<bar>" "2 \<le> \<bar>bx\<bar>" by (auto simp: reach_def)
    show ?thesis
    proof (cases "2 * \<bar>ay\<bar> > 3 * \<bar>bx\<bar>")
      case True
      note f = reach_long [OF v(3) sz(2) True]
      from assms(2) True ne f(1-4) show ?thesis
        by (auto simp: c v sub_calls_vert call_ok_def call_w_def call_h_def)
    next
      case False
      note f = std_reach [OF reach_std [OF v(3) sz False]]
      from assms(2) False ne f show ?thesis
        by (auto simp: c v sub_calls_vert call_ok_def call_w_def call_h_def)
    qed
  qed
qed

lemma gilbert_calls_ok:
  assumes "1 \<le> width" "1 \<le> height" "c \<in> gilbert_calls width height"
  shows "call_ok c"
  using assms(3)
proof induction
  case wide
  then show ?case using assms(1,2) by (simp add: call_ok_def reach_def)
next
  case tall
  then show ?case using assms(1,2) by (simp add: call_ok_def reach_def)
next
  case (sub c c')
  then show ?case using sub_call_ok by blast
qed

lemma call_ok_sizes: "call_ok c \<Longrightarrow> 1 \<le> call_w c \<and> 1 \<le> call_h c"
  by (cases c) (auto simp: call_ok_def call_w_def call_h_def reach_def)

lemma base_no_calls: "call_h c = 1 \<or> call_w c = 1 \<Longrightarrow> sub_calls c = []"
proof -
  obtain x y ax ay bx "by" where c: "c = (x, y, ax, ay, bx, by)" by (cases c)
  assume "call_h c = 1 \<or> call_w c = 1"
  then have "\<bar>bx + by\<bar> = 1 \<or> \<bar>ax + ay\<bar> = 1"
    by (simp add: c call_h_def call_w_def)
  then show ?thesis
  proof
    assume "\<bar>bx + by\<bar> = 1"
    then show ?thesis
      unfolding c sub_calls_def Let_def prod.case by (simp only: if_True simp_thms)
  next
    assume "\<bar>ax + ay\<bar> = 1"
    then show ?thesis
      unfolding c sub_calls_def Let_def prod.case by (simp only: if_True if_cancel simp_thms)
  qed
qed

section \<open>Degenerate dimensions\<close>

lemma gen_strip_a: "sa \<noteq> 0 \<Longrightarrow> gen horiz p sa 0 cs = Some cs"
proof (induction "nat \<bar>sa\<bar>" arbitrary: p sa cs rule: less_induct)
  case less
  show ?case
  proof (cases "\<bar>sa\<bar> = 1")
    case True
    then show ?thesis by (subst gen_unfold) (simp add: line_def)
  next
    case False
    with less.prems have "2 \<le> sa \<or> sa \<le> - 2" by auto
    then have h: "adj_half sa \<noteq> 0" "sa - adj_half sa \<noteq> 0"
      "nat \<bar>adj_half sa\<bar> < nat \<bar>sa\<bar>" "nat \<bar>sa - adj_half sa\<bar> < nat \<bar>sa\<bar>"
      using adj_half_pos [of sa] adj_half_neg [of sa] by auto
    show ?thesis
      using False less.prems less.hyps [OF h(3) h(1)] less.hyps [OF h(4) h(2)]
      by (subst gen_unfold) simp
  qed
qed

lemma gen_strip_b: "sb \<noteq> 0 \<Longrightarrow> gen horiz p 0 sb cs = Some cs"
proof (induction "nat \<bar>sb\<bar>" arbitrary: p sb cs rule: less_induct)
  case less
  show ?case
  proof (cases "\<bar>sb\<bar> = 1")
    case True
    then show ?thesis by (subst gen_unfold) (simp add: line_def)
  next
    case False
    with less.prems have "2 \<le> sb \<or> sb \<le> - 2" by auto
    then have h: "adj_half sb \<noteq> 0" "sb - adj_half sb \<noteq> 0"
      "nat \<bar>sb - adj_half sb\<bar> < nat \<bar>sb\<bar>"
      using adj_half_pos [of sb] adj_half_neg [of sb] by auto
    show ?thesis
      using False less.prems less.hyps [OF h(3) h(2)] gen_strip_a [OF h(1)] h(1)
      by (subst gen_unfold) (simp add: gen_strip_a)
  qed
qed


lemma generate2d_zero_diverges:
  assumes "generate2d x y ax ay bx b' cs = Some r"
  shows "\<not> (ax = 0 \<and> ay = 0 \<and> bx = 0 \<and> b' = 0)"
proof (rule generate2d.raw_induct
    [where P = "\<lambda>x y ax ay bx b' cs r. \<not> (ax = 0 \<and> ay = 0 \<and> bx = 0 \<and> b' = 0)"
       and xa = "((((((x, y), ax), ay), bx), b'), cs)" and ya = r, unfolded prod.case, OF _ assms])
  fix g :: "int \<Rightarrow> int \<Rightarrow> int \<Rightarrow> int \<Rightarrow> int \<Rightarrow> int \<Rightarrow> cell list \<Rightarrow> cell list option"
    and x y ax ay bx b' :: int and cs r :: "cell list"
  assume ih: "\<And>x y ax ay bx b' cs r. g x y ax ay bx b' cs = Some r \<Longrightarrow>
                \<not> (ax = 0 \<and> ay = 0 \<and> bx = 0 \<and> b' = 0)"
    and step: "(let w = \<bar>ax + ay\<bar>; h = \<bar>bx + b'\<bar>; dax = sgn ax; day = sgn ay;
          dbx = sgn bx; dby = sgn b'
      in if h = 1 then Some (fill_loop 0 w x y dax day cs)
         else if w = 1 then Some (fill_loop 0 h x y dbx dby cs)
              else let ax2 = ax div 2; ay2 = ay div 2; bx2 = bx div 2;
                       by2 = b' div 2; w2 = \<bar>ax2 + ay2\<bar>; h2 = \<bar>bx2 + by2\<bar>
                   in if 3 * h < 2 * w
                      then let (ax2, ay2) =
                                 if w2 mod 2 \<noteq> 0 \<and> 2 < w
                                 then (ax2 + dax, ay2 + day) else (ax2, ay2)
                           in g x y ax2 ay2 bx b' cs \<bind>
                              g (x + ax2) (y + ay2) (ax - ax2) (ay - ay2) bx b'
                      else let (bx2, by2) =
                                 if h2 mod 2 \<noteq> 0 \<and> 2 < h
                                 then (bx2 + dbx, by2 + dby) else (bx2, by2)
                           in g x y bx2 by2 ax2 ay2 cs \<bind>
                              (\<lambda>c1. g (x + bx2) (y + by2) ax ay (bx - bx2) (b' - by2) c1 \<bind>
                                    g (x + (ax - dax) + (bx2 - dbx))
                                     (y + (ay - day) + (by2 - dby)) (- bx2)
                                     (- by2) (- (ax - ax2)) (- (ay - ay2)))) = Some r"
  show "\<not> (ax = 0 \<and> ay = 0 \<and> bx = 0 \<and> b' = 0)"
  proof
    assume z: "ax = 0 \<and> ay = 0 \<and> bx = 0 \<and> b' = 0"
    with step obtain c1 where "g x y 0 0 0 0 cs = Some c1"
      by (auto simp: Let_def split: bind_splits)
    with ih show False by blast
  qed
qed

lemma gilbert2d_zero: "gilbert2d 0 0 = None"
proof (cases "gilbert2d 0 0")
  case (Some r)
  then show ?thesis using generate2d_zero_diverges [of 0 0 0 0 0 0 "[]" r]
    by (simp add: gilbert2d_def)
qed simp

lemma gilbert2d_strip:
  assumes "width = 0 \<and> height \<noteq> 0 \<or> width \<noteq> 0 \<and> height = 0"
  shows "gilbert2d width height = Some []"
  using assms gen_strip_a [of height False "(0, 0)" "[]"] gen_strip_a [of width True "(0, 0)" "[]"]
    gen_strip_b [of height True "(0, 0)" "[]"] gen_strip_b [of width False "(0, 0)" "[]"]
  by (auto simp: gilbert2d_def gen_def)

section \<open>Evaluating the permutation\<close>

lemma sqrt5_bounds: "2 < sqrt 5" "sqrt 5 < 9 / 4"
proof -
  show "2 < sqrt 5" by (rule real_less_rsqrt) simp
  show "sqrt 5 < 9 / 4" by (rule real_less_lsqrt) (simp_all add: power2_eq_square)
qed

lemma encrypt_offset_2_2_half: "encrypt_offset 2 2 (1 / 2) = 1"
proof -
  have "round (sqrt 5 - 1) = 1"
    unfolding round_def using sqrt5_bounds by (intro floor_unique) simp_all
  moreover have "(sqrt 5 - 1) / 2 * real_of_int 2 * real_of_int 2 * (1 / 2) = sqrt 5 - 1"
    by simp
  ultimately show ?thesis by (simp only: encrypt_offset_def)
qed

lemma decrypt_offset_2_2: "decrypt_offset 2 2 = 2"
proof -
  have "round ((sqrt 5 - 1) * 2) = 2"
    unfolding round_def using sqrt5_bounds by (intro floor_unique) simp_all
  moreover have "(sqrt 5 - 1) / 2 * real_of_int 2 * real_of_int 2 = (sqrt 5 - 1) * 2"
    by simp
  ultimately show ?thesis by (simp only: decrypt_offset_def)
qed

lemma gilbert2d_2_2: "gilbert2d 2 2 = Some [(0, 0), (0, 1), (1, 1), (1, 0)]"
  by code_simp

lemma gilbert2d_1_1: "gilbert2d 1 1 = Some [(0, 0)]"
  by code_simp

lemmas eval_engine = Let_def try_loop.simps confuse_step_def deconfuse_step_def curve_at_def
  js_rem_def js_slice_def js_set_def

lemma js_rem_1: "js_rem k 1 = 0"
  by (simp add: js_rem_def)

section \<open>The loops of the block transform\<close>

lemma for_loop_done: "n \<le> i \<Longrightarrow> for_loop i n body s = s"
  by (subst for_loop.simps) simp

lemma for_loop_inv:
  assumes "I i s" "i \<le> n"
    and "\<And>j t. i \<le> j \<Longrightarrow> j < n \<Longrightarrow> I j t \<Longrightarrow> I (j + 1) (body j t)"
  shows "I n (for_loop i n body s)"
  using assms
proof (induction i n body s rule: for_loop.induct)
  case (1 i n body s)
  show ?case
  proof (cases "i < n")
    case True
    have "I n (for_loop (i + 1) n body (body i s))"
    proof (rule 1(1) [OF True])
      show "I (i + 1) (body i s)" using 1(2,4) True by simp
      show "i + 1 \<le> n" using True by simp
      show "\<And>j t. i + 1 \<le> j \<Longrightarrow> j < n \<Longrightarrow> I j t \<Longrightarrow> I (j + 1) (body j t)"
        using 1(4) by simp
    qed
    with True show ?thesis by (subst for_loop.simps) simp
  next
    case False
    with 1(2,3) have "i = n" by simp
    with 1(2) show ?thesis by (simp add: for_loop_done)
  qed
qed

lemma tile_loop_inv:
  assumes "I x s" "0 < step"
    and "\<And>j t. x \<le> j \<Longrightarrow> j < n \<Longrightarrow> I j t \<Longrightarrow> \<exists>t'. body j t = Inr t' \<and> I (j + step) t'"
  shows "\<exists>t m. tile_loop x n step body s = Inr t \<and> n \<le> m \<and> x \<le> m \<and> I m t"
  using assms
proof (induction x n step body s rule: tile_loop.induct)
  case (1 x n step body s)
  show ?case
  proof (cases "x < n")
    case True
    from 1(4) [OF _ True 1(2)] obtain s' where s': "body x s = Inr s'" "I (x + step) s'"
      by auto
    have "\<exists>t m. tile_loop (x + step) n step body s' = Inr t \<and> n \<le> m \<and> x + step \<le> m \<and> I m t"
    proof (rule 1(1) [OF _ s'(1) s'(2) 1(3)])
      show "x < n \<and> 0 < step" using True 1(3) by simp
      show "\<And>j t. x + step \<le> j \<Longrightarrow> j < n \<Longrightarrow> I j t \<Longrightarrow>
              \<exists>t'. body j t = Inr t' \<and> I (j + step) t'"
        using 1(4) 1(3) by simp
    qed
    then obtain t m where "tile_loop (x + step) n step body s' = Inr t" "n \<le> m" "x + step \<le> m" "I m t"
      by blast
    with True 1(3) s'(1) show ?thesis
      by (subst tile_loop.simps) (auto intro!: exI [of _ m])
  next
    case False
    with 1(2) show ?thesis
      by (subst tile_loop.simps) (auto intro!: exI [of _ x])
  qed
qed

lemma ta_put_length [simp]: "length (ta_put xs i v) = length xs"
  by (simp add: ta_put_def)

lemma ta_put_nth:
  "0 \<le> j \<Longrightarrow> ta_put xs i v ! nat j = (if j = i \<and> i < int (length xs) then v else xs ! nat j)"
  by (auto simp: ta_put_def nth_list_update)

lemma ta_get_in: "0 \<le> i \<Longrightarrow> i < int (length xs) \<Longrightarrow> ta_get xs i = Some (xs ! nat i)"
  by (simp add: ta_get_def)

lemma row_major_bound:
  fixes a W Y H :: int
  assumes "a < W" "Y < H" "0 \<le> a"
  shows "Y * W + a < H * W"
proof -
  have "0 < W" using assms by simp
  have "Y * W + a < Y * W + W" using assms by simp
  also have "\<dots> = (Y + 1) * W" by (simp add: algebra_simps)
  also have "\<dots> \<le> H * W" using assms \<open>0 < W\<close> by (intro mult_right_mono) simp_all
  finally show ?thesis .
qed

lemma row_major_div:
  fixes a W Y :: int
  assumes "0 \<le> a" "a < W"
  shows "(Y * W + a) div W = Y" and "(Y * W + a) mod W = a"
proof -
  have w: "W \<noteq> 0" using assms by auto
  have "(Y * W + a) div W = Y + a div W" using w by (rule div_mult_self3)
  then show "(Y * W + a) div W = Y" using assms by (simp add: div_pos_pos_trivial)
  have "(Y * W + a) mod W = a mod W" by (rule mod_mult_self3)
  then show "(Y * W + a) mod W = a" using assms by (simp add: mod_pos_pos_trivial)
qed

lemma row_major_unique:
  fixes a b W Y Z :: int
  assumes "Y * W + a = Z * W + b" "0 \<le> a" "a < W" "0 \<le> b" "b < W"
  shows "Y = Z \<and> a = b"
proof -
  have "(Y * W + a) div W = (Z * W + b) div W" "(Y * W + a) mod W = (Z * W + b) mod W"
    using assms(1) by simp_all
  then show ?thesis
    unfolding row_major_div [OF assms(2,3)] row_major_div [OF assms(4,5)] by simp
qed

lemma sample_coords:
  fixes X Y c width :: int
  assumes "0 \<le> X" "X < width" "0 \<le> c" "c < 4"
  shows "((Y * width + X) * 4 + c) mod 4 = c"
    and "((Y * width + X) * 4 + c) div 4 mod width = X"
    and "((Y * width + X) * 4 + c) div 4 div width = Y"
  unfolding row_major_div [OF assms(3,4)] row_major_div [OF assms(1,2)] by (rule refl)+

lemma sample_rebuild:
  fixes k width :: int
  shows "k = ((k div 4 div width) * width + k div 4 mod width) * 4 + k mod 4"
  by simp

lemma nat_lt_length: "0 \<le> i \<Longrightarrow> i < int (length xs) \<Longrightarrow> nat i < length xs"
  by simp

lemma snapshot_pixel_length [simp]:
  "length (snapshot_pixel data startX startY bw width dy dx od) = length od"
  by (simp add: snapshot_pixel_def Let_def)

lemma snapshot_pixel_nth:
  assumes "0 \<le> t" "t + 3 < int (length od)" "0 \<le> idx" "idx + 3 < int (length data)"
    and t: "t = (dy * bw + dx) * 4" and idx: "idx = ((startY + dy) * width + (startX + dx)) * 4"
    and "0 \<le> j"
  shows "snapshot_pixel data startX startY bw width dy dx od ! nat j =
           (if t \<le> j \<and> j < t + 4 then data ! nat (idx + (j - t)) else od ! nat j)"
proof -
  have g: "to_uint8 (ta_get data (idx + c)) = data ! nat (idx + c)" if "0 \<le> c" "c < 4" for c
    using that assms(3,4) by (simp add: ta_get_def to_uint8_def)
  have g0: "to_uint8 (ta_get data idx) = data ! nat idx"
    using g [of 0] by simp
  consider "j = t" | "j = t + 1" | "j = t + 2" | "j = t + 3" | "j < t \<or> t + 4 \<le> j"
    by linarith
  then show "snapshot_pixel data startX startY bw width dy dx od ! nat j =
           (if t \<le> j \<and> j < t + 4 then data ! nat (idx + (j - t)) else od ! nat j)"
    using assms(1,2,7) g [of 1] g [of 2] g [of 3] g0
    unfolding snapshot_pixel_def Let_def t [symmetric] idx [symmetric]
    by cases (simp_all add: ta_put_nth)
qed

lemma snapshot_correct:
  assumes T: "0 \<le> startX" "0 \<le> startY" "0 < bw" "0 < bh" "startX + bw \<le> width"
      "(startY + bh) * width * 4 \<le> int (length data)"
    and od: "od = for_loop 0 bh (\<lambda>dy. for_loop 0 bw (snapshot_pixel data startX startY bw width dy))
                   (replicate (nat (bw * bh * 4)) 0)"
    and r: "0 \<le> dy" "dy < bh" "0 \<le> dx" "dx < bw" "0 \<le> c" "c < 4"
  shows "ta_get od ((dy * bw + dx) * 4 + c)
         = Some (data ! nat (((startY + dy) * width + (startX + dx)) * 4 + c))"
proof -
  define S where "S m od \<longleftrightarrow> length od = nat (bw * bh * 4) \<and>
      (\<forall>dy dx c. 0 \<le> dy \<and> dy < bh \<and> 0 \<le> dx \<and> dx < bw \<and> dy * bw + dx < m \<and> 0 \<le> c \<and> c < 4 \<longrightarrow>
         od ! nat ((dy * bw + dx) * 4 + c)
           = data ! nat (((startY + dy) * width + (startX + dx)) * 4 + c))" for m od
  have tb: "0 \<le> (dy * bw + dx) * 4 \<and> (dy * bw + dx) * 4 + 3 < bw * bh * 4"
    if "0 \<le> dy" "dy < bh" "0 \<le> dx" "dx < bw" for dy dx
  proof -
    have "dy * bw + dx < bh * bw" using that by (intro row_major_bound) simp_all
    moreover have "0 \<le> dy * bw" using that T(3) by simp
    ultimately show ?thesis using that by (simp add: mult.commute)
  qed
  have ib: "0 \<le> ((startY + dy) * width + (startX + dx)) * 4 \<and>
            ((startY + dy) * width + (startX + dx)) * 4 + 3 < int (length data)"
    if "0 \<le> dy" "dy < bh" "0 \<le> dx" "dx < bw" for dy dx
  proof -
    have "(startY + dy) * width + (startX + dx) < (startY + bh) * width"
      using that T by (intro row_major_bound) simp_all
    moreover have "0 \<le> (startY + dy) * width" using that T by simp
    ultimately show ?thesis using that T by simp
  qed
  have step: "S (dy * bw + dx + 1) (snapshot_pixel data startX startY bw width dy dx od)"
    if s: "S (dy * bw + dx) od" and d: "0 \<le> dy" "dy < bh" "0 \<le> dx" "dx < bw" for dy dx od
  proof -
    let ?t = "(dy * bw + dx) * 4" and ?idx = "((startY + dy) * width + (startX + dx)) * 4"
    from s have len: "int (length od) = bw * bh * 4"
      using tb [OF d] by (simp add: S_def)
    note n = snapshot_pixel_nth [of ?t od ?idx data dy bw dx startY width startX,
        OF _ _ _ _ refl refl]
    have t: "0 \<le> ?t" "?t + 3 < int (length od)" using tb [OF d] len by simp_all
    have i: "0 \<le> ?idx" "?idx + 3 < int (length data)" using ib [OF d] by simp_all
    have "snapshot_pixel data startX startY bw width dy dx od ! nat ((dy' * bw + dx') * 4 + c)
            = data ! nat (((startY + dy') * width + (startX + dx')) * 4 + c)"
      if d': "0 \<le> dy'" "dy' < bh" "0 \<le> dx'" "dx' < bw" "dy' * bw + dx' < dy * bw + dx + 1"
        "0 \<le> c" "c < 4" for dy' dx' c
    proof (cases "dy' * bw + dx' < dy * bw + dx")
      case True
      then have out: "\<not> (?t \<le> (dy' * bw + dx') * 4 + c \<and> (dy' * bw + dx') * 4 + c < ?t + 4)"
        using d' by simp
      have "0 \<le> (dy' * bw + dx') * 4 + c" using tb [OF d'(1-4)] d' by simp
      from n [OF t i this]
      have "snapshot_pixel data startX startY bw width dy dx od ! nat ((dy' * bw + dx') * 4 + c)
          = od ! nat ((dy' * bw + dx') * 4 + c)"
        by (simp only: out if_False)
      moreover have "od ! nat ((dy' * bw + dx') * 4 + c)
          = data ! nat (((startY + dy') * width + (startX + dx')) * 4 + c)"
        using s True d' unfolding S_def by blast
      ultimately show ?thesis by (rule trans)
    next
      case False
      with d' have "dy' * bw + dx' = dy * bw + dx" by simp
      from row_major_unique [OF this d'(3,4) d(3,4)] have e: "dy' = dy" "dx' = dx" by simp_all
      have "0 \<le> ?t + c" using t d' by simp
      from n [OF t i this]
      have "snapshot_pixel data startX startY bw width dy dx od ! nat (?t + c)
          = (if ?t \<le> ?t + c \<and> ?t + c < ?t + 4 then data ! nat (?idx + (?t + c - ?t))
             else od ! nat (?t + c))" .
      moreover have "?t \<le> ?t + c \<and> ?t + c < ?t + 4" using d' by simp
      moreover have "?t + c - ?t = c" by simp
      ultimately show ?thesis unfolding e by (simp only: if_True simp_thms)
    qed
    moreover have "length (snapshot_pixel data startX startY bw width dy dx od) = nat (bw * bh * 4)"
      using s by (simp add: S_def)
    ultimately show ?thesis unfolding S_def by blast
  qed
  have inner: "S ((dy + 1) * bw) (for_loop 0 bw (snapshot_pixel data startX startY bw width dy) od)"
    if s: "S (dy * bw) od" and d: "0 \<le> dy" "dy < bh" for dy od
  proof -
    have "S (dy * bw + bw) (for_loop 0 bw (snapshot_pixel data startX startY bw width dy) od)"
    proof (rule for_loop_inv [where I = "\<lambda>dx od. S (dy * bw + dx) od"])
      show "S (dy * bw + 0) od" using s by simp
      show "0 \<le> bw" using T by simp
      show "\<And>j t. 0 \<le> j \<Longrightarrow> j < bw \<Longrightarrow> S (dy * bw + j) t \<Longrightarrow>
              S (dy * bw + (j + 1)) (snapshot_pixel data startX startY bw width dy j t)"
        using step [OF _ d] by (simp add: add.assoc)
    qed
    then show ?thesis by (simp add: algebra_simps)
  qed
  have "S (bh * bw) od"
    unfolding od
  proof (rule for_loop_inv [where I = "\<lambda>dy od. S (dy * bw) od"])
    show "S (0 * bw) (replicate (nat (bw * bh * 4)) 0)"
      unfolding S_def
    proof (intro conjI allI impI)
      show "length (replicate (nat (bw * bh * 4)) (0::byte)) = nat (bw * bh * 4)" by simp
      fix dy dx c :: int
      assume a: "0 \<le> dy \<and> dy < bh \<and> 0 \<le> dx \<and> dx < bw \<and> dy * bw + dx < 0 * bw \<and> 0 \<le> c \<and> c < 4"
      then have "0 \<le> dy * bw" using T by (intro mult_nonneg_nonneg) simp_all
      with a have False by linarith
      then show "replicate (nat (bw * bh * 4)) (0::byte) ! nat ((dy * bw + dx) * 4 + c)
                 = data ! nat (((startY + dy) * width + (startX + dx)) * 4 + c)" ..
    qed
    show "0 \<le> bh" using T by simp
    show "\<And>j t. 0 \<le> j \<Longrightarrow> j < bh \<Longrightarrow> S (j * bw) t \<Longrightarrow>
            S ((j + 1) * bw) (for_loop 0 bw (snapshot_pixel data startX startY bw width j) t)"
      using inner by simp
  qed
  moreover have "dy * bw + dx < bh * bw" using r by (intro row_major_bound) simp_all
  moreover note tb [OF r(1-4)]
  ultimately show ?thesis
    using r by (simp add: S_def ta_get_def)
qed

lemma blend_self: "blend sf v v = self_blend sf v"
  by (simp add: blend_def self_blend_def)

lemma smooth_pixel_length [simp]:
  "length (smooth_pixel od startX startY bw bh width strength dy dx d) = length d"
  by (simp add: smooth_pixel_def Let_def)

lemma smooth_pixel_nth:
  assumes "0 \<le> idx" "idx + 3 < int (length d)"
    and t: "t = (dy * bw + dx) * 4" and idx: "idx = ((startY + dy) * width + (startX + dx)) * 4"
    and o: "ta_get od t = Some (d ! nat idx)" "ta_get od (t + 1) = Some (d ! nat (idx + 1))"
      "ta_get od (t + 2) = Some (d ! nat (idx + 2))"
    and "0 \<le> j"
  shows "smooth_pixel od startX startY bw bh width strength dy dx d ! nat j =
           (if idx \<le> j \<and> j < idx + 3
            then self_blend (smooth_factor dx dy bw bh strength) (d ! nat j) else d ! nat j)"
proof -
  consider "j = idx" | "j = idx + 1" | "j = idx + 2" | "j < idx \<or> idx + 3 \<le> j"
    by linarith
  then show ?thesis
    using assms(1,2,8) o
    unfolding smooth_pixel_def Let_def t [symmetric] idx [symmetric]
    by cases (simp_all add: ta_put_nth ta_get_in blend_sample_def blend_self)
qed

lemma smooth_upto_length [simp]:
  "length (smooth_upto m data startX startY bw bh width strength) = length data"
  by (simp add: smooth_upto_def)

lemma smooth_upto_nth:
  "0 \<le> k \<Longrightarrow> k < int (length data) \<Longrightarrow>
   smooth_upto m data startX startY bw bh width strength ! nat k =
     (if k mod 4 < 3 \<and> 0 \<le> k div 4 mod width - startX \<and> k div 4 mod width - startX < bw \<and>
         0 \<le> k div 4 div width - startY \<and> k div 4 div width - startY < bh \<and>
         (k div 4 div width - startY) * bw + (k div 4 mod width - startX) < m
      then self_blend (smooth_factor (k div 4 mod width - startX) (k div 4 div width - startY)
                         bw bh strength) (data ! nat k)
      else data ! nat k)"
  by (simp add: smooth_upto_def Let_def)

lemma smooth_upto_at:
  assumes "0 \<le> X" "X < width" "0 \<le> c" "c < 4"
    and "k = (Y * width + X) * 4 + c" "0 \<le> k" "k < int (length data)"
  shows "smooth_upto m data startX startY bw bh width strength ! nat k =
     (if c < 3 \<and> 0 \<le> X - startX \<and> X - startX < bw \<and> 0 \<le> Y - startY \<and> Y - startY < bh \<and>
         (Y - startY) * bw + (X - startX) < m
      then self_blend (smooth_factor (X - startX) (Y - startY) bw bh strength) (data ! nat k)
      else data ! nat k)"
proof -
  have sc: "k mod 4 = c" "k div 4 mod width = X" "k div 4 div width = Y"
    unfolding assms(5) using sample_coords [OF assms(1-4)] by blast+
  show ?thesis
    using smooth_upto_nth [OF assms(6,7), of m startX startY bw bh width strength]
    unfolding sc .
qed

lemma smooth_step:
  assumes T: "0 \<le> startX" "0 \<le> startY" "0 < bw" "0 < bh" "startX + bw \<le> width"
      "(startY + bh) * width * 4 \<le> int (length data)"
    and d: "0 \<le> dy" "dy < bh" "0 \<le> dx" "dx < bw"
    and od: "\<And>c. 0 \<le> c \<Longrightarrow> c < 4 \<Longrightarrow>
               ta_get od ((dy * bw + dx) * 4 + c)
                 = Some (data ! nat (((startY + dy) * width + (startX + dx)) * 4 + c))"
  shows "smooth_pixel od startX startY bw bh width strength dy dx
           (smooth_upto (dy * bw + dx) data startX startY bw bh width strength)
         = smooth_upto (dy * bw + dx + 1) data startX startY bw bh width strength"
proof (rule nth_equalityI)
  define m where "m = dy * bw + dx"
  define idx where "idx = ((startY + dy) * width + (startX + dx)) * 4"
  define X where "X = startX + dx"
  define Y where "Y = startY + dy"
  define d0 where "d0 = smooth_upto m data startX startY bw bh width strength"
  define d1 where "d1 = smooth_upto (m + 1) data startX startY bw bh width strength"
  define sf where "sf = smooth_factor dx dy bw bh strength"
  have idx': "idx = (Y * width + X) * 4" by (simp add: idx_def X_def Y_def)
  have XY: "X - startX = dx" "Y - startY = dy" by (simp_all add: X_def Y_def)
  have X: "0 \<le> X" "X < width" using T d by (simp_all add: X_def)
  have ib: "0 \<le> idx" "idx + 3 < int (length data)"
  proof -
    have "Y * width + X < (startY + bh) * width"
      using d T X unfolding Y_def by (intro row_major_bound) simp_all
    moreover have "0 \<le> Y * width" using d T X unfolding Y_def by simp
    ultimately show "0 \<le> idx" "idx + 3 < int (length data)" using X T unfolding idx' by simp_all
  qed
  have len0: "length d0 = length data" by (simp add: d0_def)
  \<comment> \<open>the three samples of this pixel have not been rewritten yet\<close>
  have fresh: "d0 ! nat (idx + c) = data ! nat (idx + c)" if c: "0 \<le> c" "c < 3" for c
  proof -
    have "c < 4" "idx + c = (Y * width + X) * 4 + c" "0 \<le> idx + c" "idx + c < int (length data)"
      using c ib by (simp_all add: idx')
    from smooth_upto_at [OF X c(1) this, of m startX startY bw bh strength]
    show ?thesis unfolding XY d0_def [symmetric] m_def [symmetric] by simp
  qed
  have o: "ta_get od (m * 4) = Some (d0 ! nat idx)"
    "ta_get od (m * 4 + 1) = Some (d0 ! nat (idx + 1))"
    "ta_get od (m * 4 + 2) = Some (d0 ! nat (idx + 2))"
    using od [of 0] od [of 1] od [of 2] fresh [of 0] fresh [of 1] fresh [of 2]
    unfolding m_def [symmetric] idx_def [symmetric] by simp_all
  have goal: "smooth_pixel od startX startY bw bh width strength dy dx d0 ! i = d1 ! i"
    if "i < length data" for i
  proof -
    from that have i: "0 \<le> int i" "int i < int (length data)" by simp_all
    have len: "idx + 3 < int (length d0)" using ib len0 by simp
    have n: "smooth_pixel od startX startY bw bh width strength dy dx d0 ! i =
           (if idx \<le> int i \<and> int i < idx + 3 then self_blend sf (d0 ! i) else d0 ! i)"
      using smooth_pixel_nth [of idx d0 "m * 4" dy bw dx startY width startX od "int i" bh strength,
          OF ib(1) len _ _ o i(1)]
      unfolding m_def idx_def sf_def by simp
    show ?thesis
    proof (cases "idx \<le> int i \<and> int i < idx + 3")
      case True
      define c where "c = int i - idx"
      have c: "0 \<le> c" "c < 3" "int i = idx + c" using True by (simp_all add: c_def)
      have c4: "c < 4" "int i = (Y * width + X) * 4 + c" using c by (simp_all add: idx')
      have "d0 ! i = data ! i" using fresh [OF c(1,2)] c(3) by (metis nat_int)
      then have "smooth_pixel od startX startY bw bh width strength dy dx d0 ! i
            = self_blend sf (data ! i)"
        using n True by simp
      moreover have "d1 ! i = self_blend sf (data ! i)"
        using smooth_upto_at [OF X c(1) c4 i, of "m + 1" startX startY bw bh strength] d c(2)
        unfolding XY d1_def [symmetric] sf_def [symmetric] m_def [symmetric] by simp
      ultimately show ?thesis by simp
    next
      case False
      let ?c = "int i mod 4" and ?px = "int i div 4 mod width" and ?py = "int i div 4 div width"
      have same: "(?c < 3 \<and> 0 \<le> ?px - startX \<and> ?px - startX < bw \<and> 0 \<le> ?py - startY \<and>
                   ?py - startY < bh \<and> (?py - startY) * bw + (?px - startX) < m + 1)
              \<longleftrightarrow> (?c < 3 \<and> 0 \<le> ?px - startX \<and> ?px - startX < bw \<and> 0 \<le> ?py - startY \<and>
                   ?py - startY < bh \<and> (?py - startY) * bw + (?px - startX) < m)"
      proof -
        have False if a: "?c < 3" "0 \<le> ?px - startX" "?px - startX < bw" "0 \<le> ?py - startY"
            "?py - startY < bh" "(?py - startY) * bw + (?px - startX) = dy * bw + dx"
        proof -
          from row_major_unique [OF a(6) a(2,3) d(3,4)]
          have e: "?py = Y" "?px = X" by (simp_all add: X_def Y_def)
          have "int i = (?py * width + ?px) * 4 + ?c" by (rule sample_rebuild)
          then have "int i = idx + ?c" unfolding e idx' .
          moreover have "0 \<le> ?c" by simp
          ultimately show False using False a(1) by simp
        qed
        then show ?thesis unfolding m_def by force
      qed
      have "smooth_pixel od startX startY bw bh width strength dy dx d0 ! i = d0 ! i"
        using n False by simp
      also have "\<dots> = d1 ! i"
        using smooth_upto_nth [OF i, of "m + 1" startX startY bw bh width strength]
          smooth_upto_nth [OF i, of m startX startY bw bh width strength]
        unfolding same d0_def d1_def by simp
      finally show ?thesis .
    qed
  qed
  show "length (smooth_pixel od startX startY bw bh width strength dy dx
           (smooth_upto (dy * bw + dx) data startX startY bw bh width strength))
        = length (smooth_upto (dy * bw + dx + 1) data startX startY bw bh width strength)"
    by simp
  show "\<And>i. i < length (smooth_pixel od startX startY bw bh width strength dy dx
           (smooth_upto (dy * bw + dx) data startX startY bw bh width strength)) \<Longrightarrow>
         smooth_pixel od startX startY bw bh width strength dy dx
           (smooth_upto (dy * bw + dx) data startX startY bw bh width strength) ! i
       = smooth_upto (dy * bw + dx + 1) data startX startY bw bh width strength ! i"
    using goal unfolding d0_def d1_def m_def by simp
qed

lemma smooth_upto_0:
  assumes "0 < bw"
  shows "smooth_upto 0 data startX startY bw bh width strength = data"
proof (rule nth_equalityI)
  show "length (smooth_upto 0 data startX startY bw bh width strength) = length data" by simp
  fix i assume "i < length (smooth_upto 0 data startX startY bw bh width strength)"
  then have i: "0 \<le> int i" "int i < int (length data)" by simp_all
  have "\<not> (0 \<le> dx \<and> 0 \<le> dy \<and> dy * bw + dx < 0)" for dx dy :: int
  proof
    assume a: "0 \<le> dx \<and> 0 \<le> dy \<and> dy * bw + dx < 0"
    then have "0 \<le> dy * bw" using assms by (intro mult_nonneg_nonneg) simp_all
    with a show False by linarith
  qed
  then show "smooth_upto 0 data startX startY bw bh width strength ! i = data ! i"
    using smooth_upto_nth [OF i, of 0 startX startY bw bh width strength] by auto
qed

lemma smooth_upto_all:
  assumes "0 < bw"
  shows "smooth_upto (bh * bw) data startX startY bw bh width strength
         = smooth_tile data startX startY bw bh width strength"
proof -
  have "dy * bw + dx < bh * bw" if "0 \<le> dx" "dx < bw" "dy < bh" for dx dy :: int
    using that by (intro row_major_bound) simp_all
  then show ?thesis
    unfolding smooth_upto_def smooth_tile_def Let_def
    by (intro map_cong refl if_cong) auto
qed

lemma processBlockSmooth_tile:
  assumes T: "0 \<le> startX" "0 \<le> startY" "0 < bw" "0 < bh" "startX + bw \<le> width"
      "(startY + bh) * width * 4 \<le> int (length data)"
  shows "processBlockSmooth data startX startY bw bh width strength
         = Inr (smooth_tile data startX startY bw bh width strength)"
proof -
  define od where "od = for_loop 0 bh (\<lambda>dy. for_loop 0 bw (snapshot_pixel data startX startY bw width dy))
                   (replicate (nat (bw * bh * 4)) 0)"
  note snap = snapshot_correct [OF T od_def]
  have inner: "for_loop 0 bw (smooth_pixel od startX startY bw bh width strength dy)
                 (smooth_upto (dy * bw) data startX startY bw bh width strength)
               = smooth_upto ((dy + 1) * bw) data startX startY bw bh width strength"
    if d: "0 \<le> dy" "dy < bh" for dy
  proof -
    have "for_loop 0 bw (smooth_pixel od startX startY bw bh width strength dy)
                 (smooth_upto (dy * bw) data startX startY bw bh width strength)
               = smooth_upto (dy * bw + bw) data startX startY bw bh width strength"
    proof (rule for_loop_inv
        [where I = "\<lambda>dx s. s = smooth_upto (dy * bw + dx) data startX startY bw bh width strength"])
      show "smooth_upto (dy * bw) data startX startY bw bh width strength
            = smooth_upto (dy * bw + 0) data startX startY bw bh width strength" by simp
      show "0 \<le> bw" using T by simp
      fix j t
      assume j: "0 \<le> j" "j < bw"
        and t: "t = smooth_upto (dy * bw + j) data startX startY bw bh width strength"
      have "smooth_pixel od startX startY bw bh width strength dy j t
            = smooth_upto (dy * bw + j + 1) data startX startY bw bh width strength"
        unfolding t by (rule smooth_step [OF T d j]) (rule snap [OF d j])
      then show "smooth_pixel od startX startY bw bh width strength dy j t
            = smooth_upto (dy * bw + (j + 1)) data startX startY bw bh width strength"
        by (simp add: add.assoc)
    qed
    then show ?thesis by (simp add: algebra_simps)
  qed
  have "for_loop 0 bh (\<lambda>dy. for_loop 0 bw (smooth_pixel od startX startY bw bh width strength dy)) data
        = smooth_upto (bh * bw) data startX startY bw bh width strength"
  proof (rule for_loop_inv
      [where I = "\<lambda>dy s. s = smooth_upto (dy * bw) data startX startY bw bh width strength"])
    show "data = smooth_upto (0 * bw) data startX startY bw bh width strength"
      using smooth_upto_0 [OF T(3)] by simp
    show "0 \<le> bh" using T by simp
    show "\<And>j t. 0 \<le> j \<Longrightarrow> j < bh \<Longrightarrow>
            t = smooth_upto (j * bw) data startX startY bw bh width strength \<Longrightarrow>
            for_loop 0 bw (smooth_pixel od startX startY bw bh width strength j) t
              = smooth_upto ((j + 1) * bw) data startX startY bw bh width strength"
      using inner by simp
  qed
  moreover have "\<not> bw * bh * 4 < 0" using mult_pos_pos [OF T(3,4)] by linarith
  ultimately show ?thesis
    unfolding processBlockSmooth_def Let_def od_def [symmetric]
    using smooth_upto_all [OF T(3)] by simp
qed

lemma smooth_where_length [simp]:
  "length (smooth_where R data width height bs strength) = length data"
  by (simp add: smooth_where_def)

lemma smooth_tile_length [simp]:
  "length (smooth_tile data startX startY bw bh width strength) = length data"
  by (simp add: smooth_tile_def)

lemma smooth_where_nth:
  "i < length data \<Longrightarrow>
   smooth_where R data width height bs strength ! i =
     (if int i mod 4 < 3 \<and> R (int i div 4 mod width) (int i div 4 div width)
      then self_blend (smooth_factor (int i div 4 mod width mod bs) (int i div 4 div width mod bs)
             (min bs (width - (int i div 4 mod width - int i div 4 mod width mod bs)))
             (min bs (height - (int i div 4 div width - int i div 4 div width mod bs))) strength)
             (data ! i)
      else data ! i)"
  by (simp add: smooth_where_def Let_def)

lemma smooth_tile_nth:
  "i < length data \<Longrightarrow>
   smooth_tile data startX startY bw bh width strength ! i =
     (if int i mod 4 < 3 \<and> 0 \<le> int i div 4 mod width - startX \<and>
         int i div 4 mod width - startX < bw \<and> 0 \<le> int i div 4 div width - startY \<and>
         int i div 4 div width - startY < bh
      then self_blend (smooth_factor (int i div 4 mod width - startX)
             (int i div 4 div width - startY) bw bh strength) (data ! i)
      else data ! i)"
  by (simp add: smooth_tile_def Let_def)

lemma pixel_coords_range:
  fixes k width height :: int
  assumes "0 \<le> k" "k < 4 * width * height" "0 < width"
  shows "0 \<le> k div 4 mod width" "k div 4 mod width < width"
    "0 \<le> k div 4 div width" "k div 4 div width < height"
proof -
  show "0 \<le> k div 4 mod width" "k div 4 mod width < width" using assms by simp_all
  define H where "H = height * width"
  have "k < 4 * H" using assms by (simp add: H_def mult.assoc mult.commute)
  moreover have "k = 4 * (k div 4) + k mod 4" "0 \<le> k mod 4" by simp_all
  ultimately have "k div 4 < H" by linarith
  then have q: "0 \<le> k div 4" "k div 4 < height * width"
    using assms by (simp_all add: H_def pos_imp_zdiv_nonneg_iff)
  show "0 \<le> k div 4 div width" using q assms by (simp add: pos_imp_zdiv_nonneg_iff)
  show "k div 4 div width < height"
  proof (rule ccontr)
    assume "\<not> k div 4 div width < height"
    then have "height \<le> k div 4 div width" by simp
    then have "height * width \<le> k div 4 div width * width"
      using assms by (intro mult_right_mono) simp_all
    moreover have "k div 4 = k div 4 div width * width + k div 4 mod width" by simp
    moreover have "0 \<le> k div 4 mod width" using assms by simp
    ultimately show False using q by linarith
  qed
qed

lemma smooth_where_cong:
  assumes "int (length data) = 4 * width * height" "0 < width"
    and "\<And>px py. 0 \<le> px \<Longrightarrow> px < width \<Longrightarrow> 0 \<le> py \<Longrightarrow> py < height \<Longrightarrow> R px py = R' px py"
  shows "smooth_where R data width height bs strength = smooth_where R' data width height bs strength"
proof (rule nth_equalityI)
  show "length (smooth_where R data width height bs strength)
        = length (smooth_where R' data width height bs strength)" by simp
  fix i assume "i < length (smooth_where R data width height bs strength)"
  then have i: "i < length data" by simp
  then have "0 \<le> int i" "int i < 4 * width * height" using assms(1) by simp_all
  note r = pixel_coords_range [OF this assms(2)]
  show "smooth_where R data width height bs strength ! i
        = smooth_where R' data width height bs strength ! i"
    unfolding smooth_where_nth [OF i] assms(3) [OF r] ..
qed

lemma smooth_where_none:
  "smooth_where (\<lambda>px py. False) data width height bs strength = data"
  by (rule nth_equalityI) (simp_all add: smooth_where_nth)

lemma smooth_where_all:
  "smooth_where (\<lambda>px py. True) data width height bs strength
   = per_sample_map data width height bs strength"
  by (simp add: smooth_where_def per_sample_map_def)

lemma mod_in_block:
  fixes p x bs :: int
  assumes "bs dvd x" "x \<le> p" "p < x + bs"
  shows "p mod bs = p - x"
proof -
  from assms(1) obtain q where q: "x = q * bs" by (auto simp: dvd_def mult.commute)
  have "p = q * bs + (p - x)" using q by simp
  then have "p mod bs = (q * bs + (p - x)) mod bs" by simp
  also have "\<dots> = (p - x) mod bs" by (rule mod_mult_self3)
  also have "\<dots> = p - x" using assms by (simp add: mod_pos_pos_trivial)
  finally show ?thesis .
qed

lemma tile_step:
  assumes L: "int (length data) = 4 * width * height" "0 < width" "0 < height" "0 < bs"
    and xy: "0 \<le> x" "x < width" "0 \<le> y" "y < height" "bs dvd x" "bs dvd y"
  shows "processBlockSmooth
           (smooth_where (\<lambda>px py. py < y \<or> (py < y + bs \<and> px < x)) data width height bs s)
           x y (min bs (width - x)) (min bs (height - y)) width s
         = Inr (smooth_where (\<lambda>px py. py < y \<or> (py < y + bs \<and> px < x + bs)) data width height bs s)"
proof -
  define bw where "bw = min bs (width - x)"
  define bh where "bh = min bs (height - y)"
  define R where "R = (\<lambda>px py. py < y \<or> (py < y + bs \<and> px < x))"
  define R' where "R' = (\<lambda>px py. py < y \<or> (py < y + bs \<and> px < x + bs))"
  define d where "d = smooth_where R data width height bs s"
  have b: "0 < bw" "0 < bh" "x + bw \<le> width" "y + bh \<le> height" "bw \<le> bs" "bh \<le> bs"
    using L xy by (simp_all add: bw_def bh_def)
  have "(y + bh) * width \<le> height * width"
    using b(4) L(2) by (intro mult_right_mono) simp_all
  then have fit: "(y + bh) * width * 4 \<le> int (length d)"
    using L(1) by (simp add: d_def mult.commute mult.assoc)
  have "processBlockSmooth d x y bw bh width s = Inr (smooth_tile d x y bw bh width s)"
    by (rule processBlockSmooth_tile [OF xy(1,3) b(1,2,3) fit])
  moreover have "smooth_tile d x y bw bh width s = smooth_where R' data width height bs s"
  proof (rule nth_equalityI)
    show "length (smooth_tile d x y bw bh width s)
          = length (smooth_where R' data width height bs s)" by (simp add: d_def)
    fix i assume "i < length (smooth_tile d x y bw bh width s)"
    then have i: "i < length data" "i < length d" by (simp_all add: d_def)
    then have "0 \<le> int i" "int i < 4 * width * height" using L(1) by simp_all
    note r = pixel_coords_range [OF this L(2)]
    define px where "px = int i div 4 mod width"
    define py where "py = int i div 4 div width"
    note r' = r [folded px_def py_def]
    have t: "smooth_tile d x y bw bh width s ! i =
       (if int i mod 4 < 3 \<and> 0 \<le> px - x \<and> px - x < bw \<and> 0 \<le> py - y \<and> py - y < bh
        then self_blend (smooth_factor (px - x) (py - y) bw bh s) (d ! i) else d ! i)"
      unfolding smooth_tile_nth [OF i(2)] px_def py_def ..
    have w: "d ! i =
       (if int i mod 4 < 3 \<and> R px py
        then self_blend (smooth_factor (px mod bs) (py mod bs)
               (min bs (width - (px - px mod bs))) (min bs (height - (py - py mod bs))) s)
               (data ! i)
        else data ! i)"
      unfolding d_def smooth_where_nth [OF i(1)] px_def py_def ..
    have w': "smooth_where R' data width height bs s ! i =
       (if int i mod 4 < 3 \<and> R' px py
        then self_blend (smooth_factor (px mod bs) (py mod bs)
               (min bs (width - (px - px mod bs))) (min bs (height - (py - py mod bs))) s)
               (data ! i)
        else data ! i)"
      unfolding smooth_where_nth [OF i(1)] px_def py_def ..
    show "smooth_tile d x y bw bh width s ! i = smooth_where R' data width height bs s ! i"
    proof (cases "0 \<le> px - x \<and> px - x < bw \<and> 0 \<le> py - y \<and> py - y < bh")
      case True
      then have nR: "\<not> R px py" and R': "R' px py" using b by (auto simp: R_def R'_def)
      have m: "px mod bs = px - x" "py mod bs = py - y"
        using True b xy by (auto intro!: mod_in_block)
      have "min bs (width - (px - px mod bs)) = bw" "min bs (height - (py - py mod bs)) = bh"
        unfolding m by (simp_all add: bw_def bh_def)
      then show ?thesis unfolding t w w' using True nR R' m by simp
    next
      case False
      then have "R' px py = R px py"
        using r' b by (auto simp: R_def R'_def bw_def bh_def min_def split: if_splits)
      then show ?thesis unfolding t w w' using False by auto
    qed
  qed
  ultimately show ?thesis
    unfolding bw_def bh_def d_def R_def R'_def by simp
qed

lemma tile_row:
  assumes L: "int (length data) = 4 * width * height" "0 < width" "0 < height" "0 < bs"
    and y: "0 \<le> y" "y < height" "bs dvd y"
  shows "tile_loop 0 width bs
           (\<lambda>x data. processBlockSmooth data x y (min bs (width - x)) (min bs (height - y)) width s)
           (smooth_where (\<lambda>px py. py < y) data width height bs s)
         = Inr (smooth_where (\<lambda>px py. py < y + bs) data width height bs s)"
proof -
  let ?I = "\<lambda>x d. bs dvd x \<and> 0 \<le> x \<and>
              d = smooth_where (\<lambda>px py. py < y \<or> (py < y + bs \<and> px < x)) data width height bs s"
  have "\<exists>t m. tile_loop 0 width bs
           (\<lambda>x data. processBlockSmooth data x y (min bs (width - x)) (min bs (height - y)) width s)
           (smooth_where (\<lambda>px py. py < y) data width height bs s) = Inr t \<and> width \<le> m \<and> 0 \<le> m \<and> ?I m t"
  proof (rule tile_loop_inv [where I = ?I])
    show "?I 0 (smooth_where (\<lambda>px py. py < y) data width height bs s)"
      using smooth_where_cong [OF L(1,2), of "\<lambda>px py. py < y"
          "\<lambda>px py. py < y \<or> (py < y + bs \<and> px < 0)" bs s] by simp
    show "0 < bs" by (rule L(4))
    fix j t assume j: "0 \<le> j" "j < width" and t: "?I j t"
    from tile_step [OF L j y(1,2) _ y(3), of s] t
    show "\<exists>t'. processBlockSmooth t j y (min bs (width - j)) (min bs (height - y)) width s = Inr t' \<and>
               ?I (j + bs) t'"
      using L(4) by simp
  qed
  then obtain t m where tm: "tile_loop 0 width bs
           (\<lambda>x data. processBlockSmooth data x y (min bs (width - x)) (min bs (height - y)) width s)
           (smooth_where (\<lambda>px py. py < y) data width height bs s) = Inr t" "width \<le> m" "?I m t"
    by blast
  have "smooth_where (\<lambda>px py. py < y \<or> (py < y + bs \<and> px < m)) data width height bs s
        = smooth_where (\<lambda>px py. py < y + bs) data width height bs s"
    using tm(2) L(4) by (intro smooth_where_cong [OF L(1,2)]) auto
  with tm show ?thesis by simp
qed

lemma applyBlockConfusion_per_sample:
  assumes "int (length data) = 4 * width * height" "0 < width" "0 < height" "0 < blockSize"
  shows "applyBlockConfusion data width height blockSize strength
         = Inr (per_sample_map data width height blockSize strength)"
proof -
  let ?row = "\<lambda>y. tile_loop 0 width blockSize (\<lambda>x data.
               processBlockSmooth data x y (min blockSize (width - x))
                 (min blockSize (height - y)) width strength)"
  let ?I = "\<lambda>y d. blockSize dvd y \<and> 0 \<le> y \<and>
              d = smooth_where (\<lambda>px py. py < y) data width height blockSize strength"
  have "\<exists>t m. tile_loop 0 height blockSize ?row data = Inr t \<and> height \<le> m \<and> 0 \<le> m \<and> ?I m t"
  proof (rule tile_loop_inv [where I = ?I])
    have "smooth_where (\<lambda>px py. py < 0) data width height blockSize strength
          = smooth_where (\<lambda>px py. False) data width height blockSize strength"
      by (intro smooth_where_cong [OF assms(1,2)]) auto
    then show "?I 0 data" by (simp add: smooth_where_none)
    show "0 < blockSize" by (rule assms(4))
    fix j t assume j: "0 \<le> j" "j < height" and t: "?I j t"
    from tile_row [OF assms j, of strength] t
    show "\<exists>t'. ?row j t = Inr t' \<and> ?I (j + blockSize) t'"
      using assms(4) by simp
  qed
  then obtain t m where tm: "tile_loop 0 height blockSize ?row data = Inr t" "height \<le> m" "?I m t"
    by blast
  have "smooth_where (\<lambda>px py. py < m) data width height blockSize strength
        = smooth_where (\<lambda>px py. True) data width height blockSize strength"
    using tm(2) by (intro smooth_where_cong [OF assms(1,2)]) auto
  with tm have "tile_loop 0 height blockSize ?row data
                = Inr (per_sample_map data width height blockSize strength)"
    by (simp add: smooth_where_all)
  then show ?thesis
    using assms by (simp add: applyBlockConfusion_def Let_def)
qed

section \<open>Rounding to a double\<close>

text \<open>
  Rounding to the nearest integer, ties to the even one: an integer is its own rounding, a
  number less than a half away from an integer rounds to it, and a number half-way between
  two integers rounds to the even one.
\<close>

lemma round_even_of_int: "round_even (real_of_int n) = n"
  by (simp add: round_even_def)

lemma round_even_near:
  assumes "\<bar>y - real_of_int n\<bar> < 1 / 2"
  shows "round_even y = n"
proof (cases "real_of_int n \<le> y")
  case True
  with assms have "\<lfloor>y\<rfloor> = n" by (intro floor_unique) linarith+
  with assms True show ?thesis by (simp add: round_even_def Let_def)
next
  case False
  with assms have f: "\<lfloor>y\<rfloor> = n - 1" by (intro floor_unique) simp_all
  from assms False have "1 / 2 < y - real_of_int (n - 1)" by simp
  with f show ?thesis by (simp add: round_even_def Let_def)
qed

lemma round_even_tie:
  assumes "y = real_of_int n + 1 / 2" "even n"
  shows "round_even y = n"
proof -
  have "\<lfloor>y\<rfloor> = n" using assms(1) by (intro floor_unique) simp_all
  with assms show ?thesis by (simp add: round_even_def Let_def)
qed

lemma round_even_tie_up:
  assumes "y = real_of_int n - 1 / 2" "even n"
  shows "round_even y = n"
proof -
  have "\<lfloor>y\<rfloor> = n - 1" using assms(1) by (intro floor_unique) simp_all
  with assms show ?thesis by (simp add: round_even_def Let_def)
qed

text \<open>
  The exponent of a non-zero number: \<open>\<lfloor>log 2 \<bar>x\<bar>\<rfloor> = e\<close> exactly when
  \<open>2\<^sup>e \<le> \<bar>x\<bar> < 2\<^bsup>e + 1\<^esup>\<close>.
\<close>

lemma powr_2_int: "(2::real) powr real_of_int k = 2 powi k"
  by (rule powr_real_of_int') simp_all

lemma floor_log2_eq:
  assumes "2 powi e \<le> x" "x < 2 powi (e + 1)"
  shows "\<lfloor>log 2 x\<rfloor> = e"
proof -
  have "0 < (2::real) powi e" by simp
  with assms have x: "0 < x" by linarith
  have two: "1 < (2::real)" by simp
  show ?thesis
    unfolding floor_log_eq_powr_iff [OF x two] powr_2_int using assms by blast
qed

lemma floor_log2_bounds:
  assumes "x \<noteq> 0"
  shows "2 powi \<lfloor>log 2 \<bar>x\<bar>\<rfloor> \<le> \<bar>x\<bar>" "\<bar>x\<bar> < 2 powi (\<lfloor>log 2 \<bar>x\<bar>\<rfloor> + 1)"
proof -
  define e where "e = \<lfloor>log 2 \<bar>x\<bar>\<rfloor>"
  have ax: "0 < \<bar>x\<bar>" using assms by simp
  have two: "1 < (2::real)" by simp
  have "\<lfloor>log 2 \<bar>x\<bar>\<rfloor> = e" by (simp add: e_def)
  then have "2 powi e \<le> \<bar>x\<bar> \<and> \<bar>x\<bar> < 2 powi (e + 1)"
    unfolding floor_log_eq_powr_iff [OF ax two] powr_2_int .
  then show "2 powi \<lfloor>log 2 \<bar>x\<bar>\<rfloor> \<le> \<bar>x\<bar>" "\<bar>x\<bar> < 2 powi (\<lfloor>log 2 \<bar>x\<bar>\<rfloor> + 1)"
    unfolding e_def by simp_all
qed

text \<open>
  The double of a number \<open>x\<close> with \<open>2\<^sup>e \<le> \<bar>x\<bar> < 2\<^bsup>e + 1\<^esup>\<close> is the rounding of
  \<open>x / 2\<^bsup>e - 52\<^esup>\<close>, times \<open>2\<^bsup>e - 52\<^esup>\<close>.
\<close>

lemma double_round_0: "double_round 0 = 0"
  by (simp add: double_round_def)

lemma double_round_eq:
  assumes "2 powi e \<le> \<bar>x\<bar>" "\<bar>x\<bar> < 2 powi (e + 1)"
    and "round_even (x / 2 powi (e - 52)) = n"
  shows "double_round x = real_of_int n * 2 powi (e - 52)"
proof -
  have "0 < (2::real) powi e" by simp
  with assms(1) have "0 < \<bar>x\<bar>" by linarith
  then have x: "x \<noteq> 0" by simp
  have e: "\<lfloor>log 2 \<bar>x\<bar>\<rfloor> = e" by (rule floor_log2_eq [OF assms(1,2)])
  show ?thesis using x by (simp add: double_round_def e Let_def assms(3))
qed

lemma double_round_exact_at:
  assumes "2 powi e \<le> \<bar>x\<bar>" "\<bar>x\<bar> < 2 powi (e + 1)"
    and "x / 2 powi (e - 52) = real_of_int n"
  shows "double_round x = x"
proof -
  have u: "(2::real) powi (e - 52) \<noteq> 0" by simp
  have "round_even (x / 2 powi (e - 52)) = n"
    unfolding assms(3) by (rule round_even_of_int)
  with assms(1,2) have "double_round x = real_of_int n * 2 powi (e - 52)"
    by (rule double_round_eq)
  also have "\<dots> = x / 2 powi (e - 52) * 2 powi (e - 52)"
    unfolding assms(3) ..
  also have "\<dots> = x" using u by simp
  finally show ?thesis .
qed

lemma double_round_near:
  assumes "2 powi e \<le> \<bar>x\<bar>" "\<bar>x\<bar> < 2 powi (e + 1)"
    and "\<bar>x / 2 powi (e - 52) - real_of_int n\<bar> < 1 / 2"
  shows "double_round x = real_of_int n * 2 powi (e - 52)"
  using assms(1,2) round_even_near [OF assms(3)] by (rule double_round_eq)

lemma double_round_tie:
  assumes "2 powi e \<le> \<bar>x\<bar>" "\<bar>x\<bar> < 2 powi (e + 1)"
    and "x / 2 powi (e - 52) = real_of_int n + 1 / 2" "even n"
  shows "double_round x = real_of_int n * 2 powi (e - 52)"
  using assms(1,2) round_even_tie [OF assms(3,4)] by (rule double_round_eq)

lemma double_round_tie_up:
  assumes "2 powi e \<le> \<bar>x\<bar>" "\<bar>x\<bar> < 2 powi (e + 1)"
    and "x / 2 powi (e - 52) = real_of_int n - 1 / 2" "even n"
  shows "double_round x = real_of_int n * 2 powi (e - 52)"
  using assms(1,2) round_even_tie_up [OF assms(3,4)] by (rule double_round_eq)

text \<open>
  A double is its own rounding: every \<open>k * 2\<^sup>j\<close> with \<open>\<bar>k\<bar> < 2\<^bsup>53\<^esup>\<close>, so every integer
  below \<open>2\<^bsup>53\<^esup>\<close> in size and every sample of a pixel buffer.
\<close>

lemma double_round_dyadic:
  assumes "\<bar>k\<bar> < 2 ^ 53"
  shows "double_round (real_of_int k * 2 powi j) = real_of_int k * 2 powi j"
proof (cases "k = 0")
  case True
  then show ?thesis by (simp add: double_round_def)
next
  case False
  define x where "x = real_of_int k * 2 powi j"
  define e where "e = \<lfloor>log 2 \<bar>x\<bar>\<rfloor>"
  have x: "x \<noteq> 0" using False by (simp add: x_def)
  have b: "2 powi e \<le> \<bar>x\<bar>" "\<bar>x\<bar> < 2 powi (e + 1)"
    unfolding e_def by (rule floor_log2_bounds [OF x])+
  have "real_of_int \<bar>k\<bar> < 2 ^ 53"
    using assms by (metis of_int_less_numeral_power_cancel_iff)
  then have "\<bar>x\<bar> < 2 ^ 53 * 2 powi j" by (simp add: x_def abs_mult)
  also have "\<dots> = 2 powi (53 + j)" by (simp add: power_int_add)
  finally have "(2::real) powi e < 2 powi (53 + j)" using b(1) by simp
  then have "e < 53 + j"
    using power_int_increasing [of "53 + j" e "2::real"] by (cases "e < 53 + j") simp_all
  then have m: "0 \<le> j - (e - 52)" by simp
  have "x / 2 powi (e - 52) = real_of_int k * 2 powi (j - (e - 52))"
    by (simp add: x_def power_int_diff)
  also have "\<dots> = real_of_int (k * 2 ^ nat (j - (e - 52)))"
    using m by (simp add: power_int_def)
  finally have "double_round x = x" by (rule double_round_exact_at [OF b])
  then show ?thesis by (simp only: x_def)
qed

section \<open>The blend on three images\<close>

text \<open>
  The values that the operations of the blend take on three images with blockSize 8: a
  single pixel at strength 1/2, a 2 x 2 image at strength 1/2 and a 2 x 2 image at strength 2.
  A tile of one pixel has the smoothFactor \<open>1 - strength\<close>; in a tile of 2 x 2 pixels the
  smoothFactor is \<open>1 - strength\<close> at the top left pixel, 1 at the bottom right pixel and
  \<open>1 - strength * (1 / \<surd>2)\<close>, in doubles, at the other two.
\<close>

lemma js_div_values:
  "js_div 1 2 = 1 / 2"
  "js_div (6369051672525773 / 9007199254740992) (6369051672525773 / 9007199254740992) = 1"
  "js_div 2 2 = 1"
  "js_div (6369051672525773 / 4503599627370496) (6369051672525773 / 4503599627370496) = 1"
  "js_div 1 (6369051672525773 / 4503599627370496) = 1592262918131443 / 2251799813685248"
  "js_div 0 (6369051672525773 / 4503599627370496) = 0"
proof -
  show "js_div 1 2 = 1 / 2"
    using double_round_dyadic [of "1" "- 1"]
    by (simp add: js_div_def power_int_minus)
  show "js_div (6369051672525773 / 9007199254740992) (6369051672525773 / 9007199254740992) = 1"
    using double_round_dyadic [of "1" "0"]
    by (simp add: js_div_def power_int_minus)
  show "js_div 2 2 = 1"
    using double_round_dyadic [of "1" "0"]
    by (simp add: js_div_def power_int_minus)
  show "js_div (6369051672525773 / 4503599627370496) (6369051672525773 / 4503599627370496) = 1"
    using double_round_dyadic [of "1" "0"]
    by (simp add: js_div_def power_int_minus)
  show "js_div 1 (6369051672525773 / 4503599627370496) = 1592262918131443 / 2251799813685248"
  proof -
    have "double_round (1 / (6369051672525773 / 4503599627370496))
      = real_of_int (6369051672525772) * 2 powi (- 1 - 52)"
      by (rule double_round_near) (simp_all add: power_int_minus)
    then show ?thesis by (simp add: js_div_def power_int_minus)
  qed
  show "js_div 0 (6369051672525773 / 4503599627370496) = 0"
    by (simp add: js_div_def double_round_0)
qed

lemma js_sub_values:
  "js_sub 0 (1 / 2) = - (1 / 2)"
  "js_sub 1 (1 / 2) = 1 / 2"
  "js_sub 0 1 = - 1"
  "js_sub 1 1 = 0"
  "js_sub 1 (1592262918131443 / 4503599627370496) = 2911336709239053 / 4503599627370496"
  "js_sub 1 (2911336709239053 / 4503599627370496) = 1592262918131443 / 4503599627370496"
  "js_sub 1 0 = 1"
  "js_sub 1 2 = - 1"
  "js_sub 1 (- 1) = 2"
  "js_sub 1 (1592262918131443 / 1125899906842624) = - (466363011288819 / 1125899906842624)"
  "js_sub 1 (- (466363011288819 / 1125899906842624)) = 1592262918131443 / 1125899906842624"
proof -
  show "js_sub 0 (1 / 2) = - (1 / 2)"
    using double_round_dyadic [of "- 1" "- 1"]
    by (simp add: js_sub_def power_int_minus)
  show "js_sub 1 (1 / 2) = 1 / 2"
    using double_round_dyadic [of "1" "- 1"]
    by (simp add: js_sub_def power_int_minus)
  show "js_sub 0 1 = - 1"
    using double_round_dyadic [of "- 1" "0"]
    by (simp add: js_sub_def power_int_minus)
  show "js_sub 1 1 = 0"
    by (simp add: js_sub_def double_round_0)
  show "js_sub 1 (1592262918131443 / 4503599627370496) = 2911336709239053 / 4503599627370496"
    using double_round_dyadic [of "2911336709239053" "- 52"]
    by (simp add: js_sub_def power_int_minus)
  show "js_sub 1 (2911336709239053 / 4503599627370496) = 1592262918131443 / 4503599627370496"
    using double_round_dyadic [of "1592262918131443" "- 52"]
    by (simp add: js_sub_def power_int_minus)
  show "js_sub 1 0 = 1"
    using double_round_dyadic [of "1" "0"]
    by (simp add: js_sub_def power_int_minus)
  show "js_sub 1 2 = - 1"
    using double_round_dyadic [of "- 1" "0"]
    by (simp add: js_sub_def power_int_minus)
  show "js_sub 1 (- 1) = 2"
    using double_round_dyadic [of "1" "1"]
    by (simp add: js_sub_def power_int_minus)
  show "js_sub 1 (1592262918131443 / 1125899906842624) = - (466363011288819 / 1125899906842624)"
    using double_round_dyadic [of "- 466363011288819" "- 50"]
    by (simp add: js_sub_def power_int_minus)
  show "js_sub 1 (- (466363011288819 / 1125899906842624)) = 1592262918131443 / 1125899906842624"
    using double_round_dyadic [of "1592262918131443" "- 50"]
    by (simp add: js_sub_def power_int_minus)
qed

lemma js_sq_values:
  "js_sq (- (1 / 2)) = 1 / 4"
  "js_sq (1 / 2) = 1 / 4"
  "js_sq (- 1) = 1"
  "js_sq 1 = 1"
  "js_sq 0 = 0"
proof -
  show "js_sq (- (1 / 2)) = 1 / 4"
    using double_round_dyadic [of "1" "- 2"]
    by (simp add: js_sq_def power_int_minus power2_eq_square)
  show "js_sq (1 / 2) = 1 / 4"
    using double_round_dyadic [of "1" "- 2"]
    by (simp add: js_sq_def power_int_minus power2_eq_square)
  show "js_sq (- 1) = 1"
    using double_round_dyadic [of "1" "0"]
    by (simp add: js_sq_def power_int_minus power2_eq_square)
  show "js_sq 1 = 1"
    using double_round_dyadic [of "1" "0"]
    by (simp add: js_sq_def power_int_minus power2_eq_square)
  show "js_sq 0 = 0"
    by (simp add: js_sq_def double_round_0)
qed

lemma js_add_values:
  "js_add (1 / 4) (1 / 4) = 1 / 2"
  "js_add 5 5 = 10"
  "js_add 10 10 = 20"
  "js_add 15 15 = 30"
  "js_add 1 1 = 2"
  "js_add 0 1 = 1"
  "js_add (227448180409301 / 8796093022208) (7961314590657215 / 562949953421312) = 40"
  "js_add (1137240902046505 / 35184372088832) (4975821619160759 / 281474976710656) = 50"
  "js_add (682344541227903 / 17592186044416) (5970985942992911 / 281474976710656) = 60"
  "js_add 1 0 = 1"
  "js_add 0 0 = 0"
  "js_add 10 0 = 10"
  "js_add 20 0 = 20"
  "js_add 30 0 = 30"
  "js_add (- 7) 14 = 7"
  "js_add (- (3264541079021733 / 1125899906842624)) (2786460106730025 / 281474976710656)
    = 7881299347898367 / 1125899906842624"
  "js_add 7 0 = 7"
proof -
  show "js_add (1 / 4) (1 / 4) = 1 / 2"
    using double_round_dyadic [of "1" "- 1"]
    by (simp add: js_add_def power_int_minus)
  show "js_add 5 5 = 10"
    using double_round_dyadic [of "5" "1"]
    by (simp add: js_add_def power_int_minus)
  show "js_add 10 10 = 20"
    using double_round_dyadic [of "5" "2"]
    by (simp add: js_add_def power_int_minus)
  show "js_add 15 15 = 30"
    using double_round_dyadic [of "15" "1"]
    by (simp add: js_add_def power_int_minus)
  show "js_add 1 1 = 2"
    using double_round_dyadic [of "1" "1"]
    by (simp add: js_add_def power_int_minus)
  show "js_add 0 1 = 1"
    using double_round_dyadic [of "1" "0"]
    by (simp add: js_add_def power_int_minus)
  show "js_add (227448180409301 / 8796093022208) (7961314590657215 / 562949953421312) = 40"
  proof -
    have "double_round ((227448180409301 / 8796093022208) + (7961314590657215 / 562949953421312))
      = real_of_int (5629499534213120) * 2 powi (5 - 52)"
      by (rule double_round_near) (simp_all add: power_int_minus)
    then show ?thesis by (simp add: js_add_def power_int_minus)
  qed
  show "js_add (1137240902046505 / 35184372088832) (4975821619160759 / 281474976710656) = 50"
  proof -
    have "double_round ((1137240902046505 / 35184372088832) + (4975821619160759 / 281474976710656))
      = real_of_int (7036874417766400) * 2 powi (5 - 52)"
      by (rule double_round_tie_up) (simp_all add: power_int_minus)
    then show ?thesis by (simp add: js_add_def power_int_minus)
  qed
  show "js_add (682344541227903 / 17592186044416) (5970985942992911 / 281474976710656) = 60"
  proof -
    have "double_round ((682344541227903 / 17592186044416) + (5970985942992911 / 281474976710656))
      = real_of_int (8444249301319680) * 2 powi (5 - 52)"
      by (rule double_round_tie_up) (simp_all add: power_int_minus)
    then show ?thesis by (simp add: js_add_def power_int_minus)
  qed
  show "js_add 1 0 = 1"
    using double_round_dyadic [of "1" "0"]
    by (simp add: js_add_def power_int_minus)
  show "js_add 0 0 = 0"
    by (simp add: js_add_def double_round_0)
  show "js_add 10 0 = 10"
    using double_round_dyadic [of "5" "1"]
    by (simp add: js_add_def power_int_minus)
  show "js_add 20 0 = 20"
    using double_round_dyadic [of "5" "2"]
    by (simp add: js_add_def power_int_minus)
  show "js_add 30 0 = 30"
    using double_round_dyadic [of "15" "1"]
    by (simp add: js_add_def power_int_minus)
  show "js_add (- 7) 14 = 7"
    using double_round_dyadic [of "7" "0"]
    by (simp add: js_add_def power_int_minus)
  show "js_add (- (3264541079021733 / 1125899906842624)) (2786460106730025 / 281474976710656)
    = 7881299347898367 / 1125899906842624"
    using double_round_dyadic [of "7881299347898367" "- 50"]
    by (simp add: js_add_def power_int_minus)
  show "js_add 7 0 = 7"
    using double_round_dyadic [of "7" "0"]
    by (simp add: js_add_def power_int_minus)
qed

lemma js_sqrt_values:
  "js_sqrt (1 / 2) = 6369051672525773 / 9007199254740992"
  "js_sqrt 2 = 6369051672525773 / 4503599627370496"
  "js_sqrt 1 = 1"
  "js_sqrt 0 = 0"
proof -
  show "js_sqrt (1 / 2) = 6369051672525773 / 9007199254740992"
  proof -
    have lo: "(6369051672525773 - 1 / 2) * 2 powi (- 1 - 52) < sqrt (1 / 2)"
      by (rule real_less_rsqrt) (simp add: power2_eq_square power_int_minus)
    have hi: "sqrt (1 / 2) < (6369051672525773 + 1 / 2) * 2 powi (- 1 - 52)"
      by (rule real_less_lsqrt) (simp_all add: power2_eq_square power_int_minus)
    have "double_round (sqrt (1 / 2)) = real_of_int 6369051672525773 * 2 powi (- 1 - 52)"
    proof (rule double_round_near)
      from lo hi show "\<bar>sqrt (1 / 2) / 2 powi (- 1 - 52) - real_of_int 6369051672525773\<bar> < 1 / 2"
        unfolding abs_less_iff by (simp add: power_int_minus field_simps)
      from lo hi show "2 powi (- 1) \<le> \<bar>sqrt (1 / 2)\<bar>" "\<bar>sqrt (1 / 2)\<bar> < 2 powi (- 1 + 1)"
        by (simp_all add: power_int_minus)
    qed
    then show ?thesis by (simp add: js_sqrt_def power_int_minus)
  qed
  show "js_sqrt 2 = 6369051672525773 / 4503599627370496"
  proof -
    have lo: "(6369051672525773 - 1 / 2) * 2 powi (0 - 52) < sqrt 2"
      by (rule real_less_rsqrt) (simp add: power2_eq_square power_int_minus)
    have hi: "sqrt 2 < (6369051672525773 + 1 / 2) * 2 powi (0 - 52)"
      by (rule real_less_lsqrt) (simp_all add: power2_eq_square power_int_minus)
    have "double_round (sqrt 2) = real_of_int 6369051672525773 * 2 powi (0 - 52)"
    proof (rule double_round_near)
      from lo hi show "\<bar>sqrt 2 / 2 powi (0 - 52) - real_of_int 6369051672525773\<bar> < 1 / 2"
        unfolding abs_less_iff by (simp add: power_int_minus field_simps)
      from lo hi show "2 powi 0 \<le> \<bar>sqrt 2\<bar>" "\<bar>sqrt 2\<bar> < 2 powi (0 + 1)"
        by (simp_all add: power_int_minus)
    qed
    then show ?thesis by (simp add: js_sqrt_def power_int_minus)
  qed
  show "js_sqrt 1 = 1"
    using double_round_dyadic [of "1" "0"]
    by (simp add: js_sqrt_def power_int_minus)
  show "js_sqrt 0 = 0"
    by (simp add: js_sqrt_def double_round_0)
qed

lemma js_mul_values:
  "js_mul 1 (1 / 2) = 1 / 2"
  "js_mul 10 (1 / 2) = 5"
  "js_mul 20 (1 / 2) = 10"
  "js_mul 30 (1 / 2) = 15"
  "js_mul (1592262918131443 / 2251799813685248) (1 / 2) = 1592262918131443 / 4503599627370496"
  "js_mul 40 (2911336709239053 / 4503599627370496) = 227448180409301 / 8796093022208"
  "js_mul 40 (1592262918131443 / 4503599627370496) = 7961314590657215 / 562949953421312"
  "js_mul 50 (2911336709239053 / 4503599627370496) = 1137240902046505 / 35184372088832"
  "js_mul 50 (1592262918131443 / 4503599627370496) = 4975821619160759 / 281474976710656"
  "js_mul 60 (2911336709239053 / 4503599627370496) = 682344541227903 / 17592186044416"
  "js_mul 60 (1592262918131443 / 4503599627370496) = 5970985942992911 / 281474976710656"
  "js_mul 0 (1 / 2) = 0"
  "js_mul 10 1 = 10"
  "js_mul 10 0 = 0"
  "js_mul 20 1 = 20"
  "js_mul 20 0 = 0"
  "js_mul 30 1 = 30"
  "js_mul 30 0 = 0"
  "js_mul 1 2 = 2"
  "js_mul 7 (- 1) = - 7"
  "js_mul 7 2 = 14"
  "js_mul (1592262918131443 / 2251799813685248) 2 = 1592262918131443 / 1125899906842624"
  "js_mul 7 (- (466363011288819 / 1125899906842624)) = - (3264541079021733 / 1125899906842624)"
  "js_mul 7 (1592262918131443 / 1125899906842624) = 2786460106730025 / 281474976710656"
  "js_mul 0 2 = 0"
  "js_mul 7 1 = 7"
  "js_mul 7 0 = 0"
proof -
  show "js_mul 1 (1 / 2) = 1 / 2"
    using double_round_dyadic [of "1" "- 1"]
    by (simp add: js_mul_def power_int_minus)
  show "js_mul 10 (1 / 2) = 5"
    using double_round_dyadic [of "5" "0"]
    by (simp add: js_mul_def power_int_minus)
  show "js_mul 20 (1 / 2) = 10"
    using double_round_dyadic [of "5" "1"]
    by (simp add: js_mul_def power_int_minus)
  show "js_mul 30 (1 / 2) = 15"
    using double_round_dyadic [of "15" "0"]
    by (simp add: js_mul_def power_int_minus)
  show "js_mul (1592262918131443 / 2251799813685248) (1 / 2)
    = 1592262918131443 / 4503599627370496"
    using double_round_dyadic [of "1592262918131443" "- 52"]
    by (simp add: js_mul_def power_int_minus)
  show "js_mul 40 (2911336709239053 / 4503599627370496) = 227448180409301 / 8796093022208"
  proof -
    have "double_round (40 * (2911336709239053 / 4503599627370496))
      = real_of_int (7278341773097632) * 2 powi (4 - 52)"
      by (rule double_round_tie) (simp_all add: power_int_minus)
    then show ?thesis by (simp add: js_mul_def power_int_minus)
  qed
  show "js_mul 40 (1592262918131443 / 4503599627370496) = 7961314590657215 / 562949953421312"
    using double_round_dyadic [of "7961314590657215" "- 49"]
    by (simp add: js_mul_def power_int_minus)
  show "js_mul 50 (2911336709239053 / 4503599627370496) = 1137240902046505 / 35184372088832"
  proof -
    have "double_round (50 * (2911336709239053 / 4503599627370496))
      = real_of_int (4548963608186020) * 2 powi (5 - 52)"
      by (rule double_round_near) (simp_all add: power_int_minus)
    then show ?thesis by (simp add: js_mul_def power_int_minus)
  qed
  show "js_mul 50 (1592262918131443 / 4503599627370496) = 4975821619160759 / 281474976710656"
  proof -
    have "double_round (50 * (1592262918131443 / 4503599627370496))
      = real_of_int (4975821619160759) * 2 powi (4 - 52)"
      by (rule double_round_near) (simp_all add: power_int_minus)
    then show ?thesis by (simp add: js_mul_def power_int_minus)
  qed
  show "js_mul 60 (2911336709239053 / 4503599627370496) = 682344541227903 / 17592186044416"
  proof -
    have "double_round (60 * (2911336709239053 / 4503599627370496))
      = real_of_int (5458756329823224) * 2 powi (5 - 52)"
      by (rule double_round_near) (simp_all add: power_int_minus)
    then show ?thesis by (simp add: js_mul_def power_int_minus)
  qed
  show "js_mul 60 (1592262918131443 / 4503599627370496) = 5970985942992911 / 281474976710656"
  proof -
    have "double_round (60 * (1592262918131443 / 4503599627370496))
      = real_of_int (5970985942992911) * 2 powi (4 - 52)"
      by (rule double_round_near) (simp_all add: power_int_minus)
    then show ?thesis by (simp add: js_mul_def power_int_minus)
  qed
  show "js_mul 0 (1 / 2) = 0"
    by (simp add: js_mul_def double_round_0)
  show "js_mul 10 1 = 10"
    using double_round_dyadic [of "5" "1"]
    by (simp add: js_mul_def power_int_minus)
  show "js_mul 10 0 = 0"
    by (simp add: js_mul_def double_round_0)
  show "js_mul 20 1 = 20"
    using double_round_dyadic [of "5" "2"]
    by (simp add: js_mul_def power_int_minus)
  show "js_mul 20 0 = 0"
    by (simp add: js_mul_def double_round_0)
  show "js_mul 30 1 = 30"
    using double_round_dyadic [of "15" "1"]
    by (simp add: js_mul_def power_int_minus)
  show "js_mul 30 0 = 0"
    by (simp add: js_mul_def double_round_0)
  show "js_mul 1 2 = 2"
    using double_round_dyadic [of "1" "1"]
    by (simp add: js_mul_def power_int_minus)
  show "js_mul 7 (- 1) = - 7"
    using double_round_dyadic [of "- 7" "0"]
    by (simp add: js_mul_def power_int_minus)
  show "js_mul 7 2 = 14"
    using double_round_dyadic [of "7" "1"]
    by (simp add: js_mul_def power_int_minus)
  show "js_mul (1592262918131443 / 2251799813685248) 2 = 1592262918131443 / 1125899906842624"
    using double_round_dyadic [of "1592262918131443" "- 50"]
    by (simp add: js_mul_def power_int_minus)
  show "js_mul 7 (- (466363011288819 / 1125899906842624))
    = - (3264541079021733 / 1125899906842624)"
    using double_round_dyadic [of "- 3264541079021733" "- 50"]
    by (simp add: js_mul_def power_int_minus)
  show "js_mul 7 (1592262918131443 / 1125899906842624) = 2786460106730025 / 281474976710656"
  proof -
    have "double_round (7 * (1592262918131443 / 1125899906842624))
      = real_of_int (5572920213460050) * 2 powi (3 - 52)"
      by (rule double_round_tie) (simp_all add: power_int_minus)
    then show ?thesis by (simp add: js_mul_def power_int_minus)
  qed
  show "js_mul 0 2 = 0"
    by (simp add: js_mul_def double_round_0)
  show "js_mul 7 1 = 7"
    using double_round_dyadic [of "7" "0"]
    by (simp add: js_mul_def power_int_minus)
  show "js_mul 7 0 = 0"
    by (simp add: js_mul_def double_round_0)
qed

lemma smooth_factor_values:
  "smooth_factor 0 0 1 1 (1 / 2) = 1 / 2"
  "smooth_factor 0 0 2 2 (1 / 2) = 1 / 2"
  "smooth_factor 1 0 2 2 (1 / 2) = 2911336709239053 / 4503599627370496"
  "smooth_factor 0 1 2 2 (1 / 2) = 2911336709239053 / 4503599627370496"
  "smooth_factor 1 1 2 2 (1 / 2) = 1"
  "smooth_factor 0 0 2 2 2 = - 1"
  "smooth_factor 1 0 2 2 2 = - (466363011288819 / 1125899906842624)"
  "smooth_factor 0 1 2 2 2 = - (466363011288819 / 1125899906842624)"
  "smooth_factor 1 1 2 2 2 = 1"
  unfolding smooth_factor_def Let_def
  by (simp_all only: of_int_0 of_int_1 of_int_numeral js_div_values js_sub_values js_sq_values
      js_add_values js_sqrt_values js_mul_values)

lemma sample_values:
  "real (unat (7 :: byte)) = 7"
  "real (unat (10 :: byte)) = 10"
  "real (unat (20 :: byte)) = 20"
  "real (unat (30 :: byte)) = 30"
  "real (unat (40 :: byte)) = 40"
  "real (unat (50 :: byte)) = 50"
  "real (unat (60 :: byte)) = 60"
  by simp_all

lemma floor_values:
  "\<lfloor>7881299347898367 / 1125899906842624 :: real\<rfloor> = 6"
  by simp_all

lemma self_blend_values:
  "self_blend (1 / 2) 10 = 10"
  "self_blend (1 / 2) 20 = 20"
  "self_blend (1 / 2) 30 = 30"
  "self_blend (2911336709239053 / 4503599627370496) 40 = 40"
  "self_blend (2911336709239053 / 4503599627370496) 50 = 50"
  "self_blend (2911336709239053 / 4503599627370496) 60 = 60"
  "self_blend 1 10 = 10"
  "self_blend 1 20 = 20"
  "self_blend 1 30 = 30"
  "self_blend (- 1) 7 = 7"
  "self_blend (- (466363011288819 / 1125899906842624)) 7 = 6"
  "self_blend 1 7 = 7"
  unfolding self_blend_def
  by (simp_all only: sample_values js_sub_values js_mul_values js_add_values floor_values
      floor_numeral)
    (simp_all add: clamp_store_def)

lemma per_sample_map_values:
  "per_sample_map [10, 20, 30, 255] 1 1 8 (1 / 2)
   = [10, 20, 30, 255]"
  "per_sample_map [10, 20, 30, 255, 40, 50, 60, 255, 40, 50, 60, 255, 10, 20, 30, 255] 2 2 8 (1 / 2)
   = [10, 20, 30, 255, 40, 50, 60, 255, 40, 50, 60, 255, 10, 20, 30, 255]"
  "per_sample_map [7, 7, 7, 255, 7, 7, 7, 255, 7, 7, 7, 255, 7, 7, 7, 255] 2 2 8 2
   = [7, 7, 7, 255, 6, 6, 6, 255, 6, 6, 6, 255, 7, 7, 7, 255]"
  by (simp_all add: per_sample_map_def Let_def upt_rec smooth_factor_values self_blend_values)

section \<open>Claims about the curve generator\<close>

text \<open>
  C2 (coverage): for every width \<open>\<ge> 1\<close> and height \<open>\<ge> 1\<close>, gilbert2d(width, height) returns a
  sequence of exactly width * height cells, pairwise distinct, each \<open>(x, y)\<close> with
  \<open>0 \<le> x < width\<close> and \<open>0 \<le> y < height\<close>; the cells are exactly those of the grid.
\<close>

theorem gilbert2d_coverage:
  assumes "1 \<le> width" "1 \<le> height"
  shows "\<exists>curve. gilbert2d width height = Some curve \<and>
           int (length curve) = width * height \<and> distinct curve \<and>
           set curve = {0..<width} \<times> {0..<height} \<and>
           (\<forall>(x, y) \<in> set curve. 0 \<le> x \<and> x < width \<and> 0 \<le> y \<and> y < height)"
proof -
  from gilbert2d_good [OF assms] obtain ys where
    ys: "gilbert2d width height = Some ys"
      "good (width \<ge> height) (0, 0) (if width \<ge> height then width else height)
         (if width \<ge> height then height else width) ys"
    by blast
  have "0 \<le> width * height" using assms by simp
  then have "int (length ys) = width * height"
    using ys(2) by (auto simp: good_def mult.commute split: if_splits)
  moreover have set: "set ys = {0..<width} \<times> {0..<height}"
    using ys(2) in_rect_grid [of width height] assms by (simp add: good_def)
  moreover have "\<forall>(x, y) \<in> set ys. 0 \<le> x \<and> x < width \<and> 0 \<le> y \<and> y < height"
    unfolding set by auto
  moreover have "distinct ys" using ys(2) by (simp add: good_def)
  ultimately show ?thesis using ys(1) by blast
qed

theorem gilbert2d_coverage_witness:
  "(1::int) \<le> 3 \<and> (1::int) \<le> 2 \<and>
   (\<exists>curve. gilbert2d 3 2 = Some curve \<and> int (length curve) = 3 * 2 \<and> distinct curve \<and>
      set curve = {0..<3} \<times> {0..<2} \<and>
      (\<forall>(x, y) \<in> set curve. 0 \<le> x \<and> x < 3 \<and> 0 \<le> y \<and> y < 2))"
  using gilbert2d_coverage [of 3 2] by simp

text \<open>
  C3 (locality), as stated: consecutive cells of gilbert2d(width, height) are at Manhattan
  distance exactly 1. This fails for gilbert2d(5, 4): its cells number 13 and 14 are
  \<open>(3, 2)\<close> and \<open>(4, 1)\<close>, a diagonal step.
\<close>

theorem gilbert2d_locality_counterexample:
  "(1::int) \<le> 5 \<and> (1::int) \<le> 4 \<and> int 13 < 5 * 4 - 1 \<and>
   gilbert2d 5 4 \<noteq> None \<and>
   the (gilbert2d 5 4) ! 13 = (3, 2) \<and> the (gilbert2d 5 4) ! (13 + 1) = (4, 1) \<and>
   manhattan (the (gilbert2d 5 4) ! 13) (the (gilbert2d 5 4) ! (13 + 1)) \<noteq> 1"
  by code_simp

text \<open>
  C3 (locality), amended: for every width \<open>\<ge> 1\<close> and height \<open>\<ge> 1\<close> and every index \<open>i\<close> with
  \<open>0 \<le> i < width * height - 1\<close>, the cells number \<open>i\<close> and \<open>i + 1\<close> of gilbert2d(width, height)
  are neighbours in the 8-connected sense (Chebyshev distance exactly 1, so they differ by at
  most one unit in each axis); their Manhattan distance is exactly 1 unless the larger of
  width and height is odd and the smaller one is even and at least 4.
\<close>

theorem gilbert2d_locality:
  assumes "1 \<le> width" "1 \<le> height"
  shows "\<exists>curve. gilbert2d width height = Some curve \<and>
           (\<forall>i. int i < width * height - 1 \<longrightarrow>
              chebyshev (curve ! i) (curve ! (i + 1)) = 1 \<and>
              (\<not> (odd (max width height) \<and> even (min width height) \<and> 4 \<le> min width height) \<longrightarrow>
                 manhattan (curve ! i) (curve ! (i + 1)) = 1))"
proof -
  let ?sa = "if width \<ge> height then width else height"
  let ?sb = "if width \<ge> height then height else width"
  from gilbert2d_good [OF assms] obtain ys where
    ys: "gilbert2d width height = Some ys" "good (width \<ge> height) (0, 0) ?sa ?sb ys"
    by blast
  have "0 \<le> width * height" using assms by simp
  then have len: "int (length ys) = width * height"
    using ys(2) by (auto simp: good_def mult.commute split: if_splits)
  have "chebyshev (ys ! i) (ys ! (i + 1)) = 1 \<and>
        (\<not> (odd (max width height) \<and> even (min width height) \<and> 4 \<le> min width height) \<longrightarrow>
           manhattan (ys ! i) (ys ! (i + 1)) = 1)" if "int i < width * height - 1" for i
  proof -
    from that len have i: "Suc i < length ys" by simp
    have "king_step (ys ! i) (ys ! Suc i)"
      using ys(2) i by (auto simp: good_def intro: successively_nth)
    moreover have "ys ! i \<noteq> ys ! Suc i"
      using ys(2) i by (auto simp: good_def nth_eq_iff_index_eq)
    ultimately have c: "chebyshev (ys ! i) (ys ! (i + 1)) = 1"
      by (simp add: king_cheb)
    have "manhattan (ys ! i) (ys ! (i + 1)) = 1"
      if nd: "\<not> (odd (max width height) \<and> even (min width height) \<and> 4 \<le> min width height)"
    proof -
      have "\<not> diag ?sa ?sb"
        using nd assms by (auto simp: diag_def max_def min_def split: if_splits)
      then have "successively rook_step ys" using ys(2) by (simp add: good_def)
      from successively_nth [OF this i] show ?thesis
        by (simp add: rook_step_def manhattan_def)
    qed
    with c show ?thesis by blast
  qed
  with ys(1) show ?thesis by blast
qed

theorem gilbert2d_locality_witness:
  "(1::int) \<le> 3 \<and> (1::int) \<le> 2 \<and>
   (\<exists>curve. gilbert2d 3 2 = Some curve \<and>
      (\<forall>i. int i < 3 * 2 - 1 \<longrightarrow>
         chebyshev (curve ! i) (curve ! (i + 1)) = 1 \<and>
         (\<not> (odd (max (3::int) 2) \<and> even (min (3::int) 2) \<and> 4 \<le> min (3::int) 2) \<longrightarrow>
            manhattan (curve ! i) (curve ! (i + 1)) = 1)))"
  using gilbert2d_locality [of 3 2] by simp

text \<open>
  C4 (termination), as stated: the recursion terminates because each recursive call
  strictly reduces \<open>max(w, h)\<close>. The reason fails: gilbert2d(2, 2) calls
  generate2d(0, 0, 2, 0, 0, 2), with \<open>w = h = 2\<close>, whose second recursive call is
  generate2d(0, 1, 2, 0, 0, 1), with \<open>w = 2\<close> and \<open>h = 1\<close>: \<open>max(w, h)\<close> is 2 in both.
\<close>

theorem generate2d_terminates_counterexample:
  "(1::int) \<le> 2 \<and> (0, 0, 2, 0, 0, 2) \<in> gilbert_calls 2 2 \<and>
   (0, 1, 2, 0, 0, 1) \<in> set (sub_calls (0, 0, 2, 0, 0, 2)) \<and>
   \<not> max (call_w (0, 1, 2, 0, 0, 1)) (call_h (0, 1, 2, 0, 0, 1))
       < max (call_w (0, 0, 2, 0, 0, 2)) (call_h (0, 0, 2, 0, 0, 2))"
  using gilbert_calls.wide [of 2 2]
  by (simp add: sub_calls_def call_w_def call_h_def Let_def)

text \<open>
  C4 (termination), amended: for every width \<open>\<ge> 1\<close> and height \<open>\<ge> 1\<close> the recursion of
  generate2d, as invoked from gilbert2d, terminates (gilbert2d returns a curve), because
  every call that arises has \<open>w \<ge> 1\<close> and \<open>h \<ge> 1\<close>, each of its recursive calls strictly
  reduces \<open>w + h\<close>, and a call with \<open>h = 1\<close> or \<open>w = 1\<close> makes no recursive call.
\<close>

theorem generate2d_terminates:
  assumes "1 \<le> width" "1 \<le> height"
  shows "(\<exists>curve. gilbert2d width height = Some curve) \<and>
         (\<forall>c \<in> gilbert_calls width height.
            1 \<le> call_w c \<and> 1 \<le> call_h c \<and>
            (call_h c = 1 \<or> call_w c = 1 \<longrightarrow> sub_calls c = []) \<and>
            (\<forall>c' \<in> set (sub_calls c). call_w c' + call_h c' < call_w c + call_h c))"
  using gilbert2d_good [OF assms] gilbert_calls_ok [OF assms] call_ok_sizes sub_call_ok
    base_no_calls
  by blast

theorem generate2d_terminates_witness:
  "(1::int) \<le> 2 \<and> (1::int) \<le> 2 \<and> (0, 0, 2, 0, 0, 2) \<in> gilbert_calls 2 2 \<and>
   (0, 1, 2, 0, 0, 1) \<in> set (sub_calls (0, 0, 2, 0, 0, 2)) \<and>
   (\<exists>curve. gilbert2d 2 2 = Some curve) \<and>
   call_w (0, 1, 2, 0, 0, 1) + call_h (0, 1, 2, 0, 0, 1)
     < call_w (0, 0, 2, 0, 0, 2) + call_h (0, 0, 2, 0, 0, 2)"
proof -
  have d: "(1::int) \<le> 2" by simp
  have r: "(0, 0, 2, 0, 0, 2) \<in> gilbert_calls 2 2"
    using gilbert_calls.wide [of 2 2] by simp
  have s: "(0, 1, 2, 0, 0, 1) \<in> set (sub_calls (0, 0, 2, 0, 0, 2))"
    by (simp add: sub_calls_def Let_def)
  from generate2d_terminates [OF d d] r s show ?thesis by fastforce
qed

text \<open>
  C9 (concrete vectors): gilbert2d(4,1) = [(0,0),(1,0),(2,0),(3,0)],
  gilbert2d(1,4) = [(0,0),(0,1),(0,2),(0,3)] and gilbert2d(2,2) = [(0,0),(0,1),(1,1),(1,0)].
\<close>

theorem gilbert2d_concrete_vectors:
  "gilbert2d 4 1 = Some [(0, 0), (1, 0), (2, 0), (3, 0)] \<and>
   gilbert2d 1 4 = Some [(0, 0), (0, 1), (0, 2), (0, 3)] \<and>
   gilbert2d 2 2 = Some [(0, 0), (0, 1), (1, 1), (1, 0)]"
  by code_simp

text \<open>
  C7 (degenerate dimensions), as stated: whenever width \<open>\<le> 0\<close> or height \<open>\<le> 0\<close>, gilbert2d
  returns the empty sequence rather than erroring or diverging. This fails at
  width = height = 0, where generate2d(0, 0, 0, 0, 0, 0) calls itself with the same
  arguments and never returns; and gilbert2d(-1, -1) returns the one cell \<open>(0, 0)\<close>.
\<close>

theorem gilbert2d_degenerate_counterexample:
  "((0::int) \<le> 0 \<or> (0::int) \<le> 0) \<and> gilbert2d 0 0 \<noteq> Some [] \<and> gilbert2d 0 0 = None \<and>
   gilbert2d (- 1) (- 1) = Some [(0, 0)]"
proof -
  have "gilbert2d (- 1) (- 1) = Some [(0, 0)]" by code_simp
  then show ?thesis by (simp add: gilbert2d_zero)
qed

text \<open>
  C7 (degenerate dimensions), amended: for all width \<open>\<ge> 1\<close> and height \<open>\<ge> 1\<close> gilbert2d
  succeeds: it returns a curve, which is a function of width and height alone (the model
  is a function, and the array it fills is created by the call). When exactly one of
  width and height is 0 it returns the empty sequence.
\<close>

theorem gilbert2d_succeeds:
  "(1 \<le> width \<and> 1 \<le> height \<longrightarrow> (\<exists>curve. gilbert2d width height = Some curve)) \<and>
   (width = 0 \<and> height \<noteq> 0 \<or> width \<noteq> 0 \<and> height = 0 \<longrightarrow> gilbert2d width height = Some [])"
  using gilbert2d_good [of width height] gilbert2d_strip [of width height] by blast

theorem gilbert2d_succeeds_witness:
  "((1::int) \<le> 3 \<and> (1::int) \<le> 2 \<and> (\<exists>curve. gilbert2d 3 2 = Some curve)) \<and>
   ((0::int) = 0 \<and> (5::int) \<noteq> 0 \<and> gilbert2d 0 5 = Some [])"
  using gilbert2d_succeeds [of 3 2] gilbert2d_succeeds [of 0 5] by simp

section \<open>Claims about encrypt and decrypt\<close>

text \<open>
  C1 (round trip): for every buffer, encrypting with strength \<open>s\<close> and then decrypting
  gives the buffer back. The code does not do this: encrypt computes its offset from the
  strength, decrypt computes its offset without it. On the 2 x 2 image with the pixels
  1, 2, 3, 4 (each \<open>v, v, v, 255\<close>) and strength 1/2, encrypt shifts the pixels by one
  place along the curve, decrypt shifts them back by two, and the result is not the input.
\<close>

theorem decrypt_encrypt_half_strength:
  "encrypt \<lparr>img_width = 2, img_height = 2,
      img_pixels = [1, 1, 1, 255, 2, 2, 2, 255, 3, 3, 3, 255, 4, 4, 4, 255]\<rparr> (1 / 2) 1
     = Done [2, 2, 2, 255, 4, 4, 4, 255, 1, 1, 1, 255, 3, 3, 3, 255] \<and>
   decrypt \<lparr>img_width = 2, img_height = 2,
      img_pixels = [2, 2, 2, 255, 4, 4, 4, 255, 1, 1, 1, 255, 3, 3, 3, 255]\<rparr>
     = Done [3, 3, 3, 255, 1, 1, 1, 255, 4, 4, 4, 255, 2, 2, 2, 255] \<and>
   [3, 3, 3, 255, 1, 1, 1, 255, 4, 4, 4, 255, 2, 2, 2, 255]
     \<noteq> [1, 1, 1, 255, 2, 2, 2, 255, 3, 3, 3, 255, 4, 4, 4, 255 :: byte]"
  by (simp add: encrypt_def decrypt_def applyGilbertConfusion_def encrypt_offset_2_2_half
      decrypt_offset_2_2 gilbert2d_2_2 eval_engine)

text \<open>
  C8 (mode selection): for an image with valid dimensions, encrypt applies
  applyGilbertConfusion to the buffer if blockSize \<open>< 8\<close>, and applyBlockConfusion if
  blockSize \<open>\<ge> 8\<close>.
\<close>

theorem encrypt_mode_selection:
  assumes "img_width img \<noteq> 0" "img_height img \<noteq> 0"
  shows "(blockSize < 8 \<longrightarrow>
            encrypt img strength blockSize =
              (case applyGilbertConfusion (img_pixels img) (img_width img) (img_height img)
                      strength of
                 Inl e \<Rightarrow> Failed e | Inr ctx' \<Rightarrow> Done ctx')) \<and>
         (8 \<le> blockSize \<longrightarrow>
            encrypt img strength blockSize =
              (case applyBlockConfusion (img_pixels img) (img_width img) (img_height img)
                      blockSize strength of
                 Inl e \<Rightarrow> Failed e | Inr ctx' \<Rightarrow> Done ctx'))"
  using assms by (simp add: encrypt_def Let_def)

theorem encrypt_mode_selection_witness:
  "img_width \<lparr>img_width = 2, img_height = 2, img_pixels = replicate 16 0\<rparr> \<noteq> 0 \<and>
   img_height \<lparr>img_width = 2, img_height = 2, img_pixels = replicate 16 0\<rparr> \<noteq> 0 \<and>
   (7::int) < 8 \<and>
   encrypt \<lparr>img_width = 2, img_height = 2, img_pixels = replicate 16 0\<rparr> 1 7 =
     (case applyGilbertConfusion (replicate 16 0) 2 2 1 of
        Inl e \<Rightarrow> Failed e | Inr ctx' \<Rightarrow> Done ctx') \<and>
   (8::int) \<le> 8 \<and>
   encrypt \<lparr>img_width = 2, img_height = 2, img_pixels = replicate 16 0\<rparr> 1 8 =
     (case applyBlockConfusion (replicate 16 0) 2 2 8 1 of
        Inl e \<Rightarrow> Failed e | Inr ctx' \<Rightarrow> Done ctx')"
  using encrypt_mode_selection
          [of "\<lparr>img_width = 2, img_height = 2, img_pixels = replicate 16 0\<rparr>" 7 1]
        encrypt_mode_selection
          [of "\<lparr>img_width = 2, img_height = 2, img_pixels = replicate 16 0\<rparr>" 8 1]
  by simp

text \<open>
  C10 (single pixel): gilbert2d(1, 1) = [(0, 0)], and for every strength the permutation
  of encrypt (applyGilbertConfusion) and the one of decrypt return a 1 x 1 buffer as it is.
\<close>

theorem single_pixel_identity:
  assumes "length X = 4"
  shows "gilbert2d 1 1 = Some [(0, 0)] \<and>
         applyGilbertConfusion X 1 1 strength = Inr X \<and>
         decrypt \<lparr>img_width = 1, img_height = 1, img_pixels = X\<rparr> = Done X \<and>
         (blockSize < 8 \<longrightarrow>
            encrypt \<lparr>img_width = 1, img_height = 1, img_pixels = X\<rparr> strength blockSize = Done X)"
  using assms
  by (simp add: encrypt_def decrypt_def applyGilbertConfusion_def gilbert2d_1_1 Let_def
      try_loop.simps confuse_step_def deconfuse_step_def curve_at_def js_rem_1 js_slice_def
      js_set_def)

theorem single_pixel_identity_witness:
  "length [10, 20, 30, 255 :: byte] = 4 \<and>
   gilbert2d 1 1 = Some [(0, 0)] \<and>
   applyGilbertConfusion [10, 20, 30, 255] 1 1 (1 / 2) = Inr [10, 20, 30, 255] \<and>
   decrypt \<lparr>img_width = 1, img_height = 1, img_pixels = [10, 20, 30, 255]\<rparr>
     = Done [10, 20, 30, 255] \<and>
   (1::int) < 8 \<and>
   encrypt \<lparr>img_width = 1, img_height = 1, img_pixels = [10, 20, 30, 255]\<rparr> (1 / 2) 1
     = Done [10, 20, 30, 255]"
  using single_pixel_identity [of "[10, 20, 30, 255]" "1 / 2" 1] by simp

section \<open>Claims about the block transform\<close>

text \<open>
  C5 (the block transform twice): for every buffer, every blockSize \<open>\<ge> 8\<close> and every
  strength \<open>> 0\<close>, applying the block transform twice is not the identity. The code does not
  do this. processBlockSmooth is written to blend every colour sample with the sample of
  before the transform (its comment on the three assignments reads "blend the original
  colour and the confused colour"), but the copy \<open>originalData\<close> is taken from the buffer that
  is then rewritten sample by sample, so that every sample is blended with itself. With
  blockSize 8 and strength 1/2 the single pixel 10, 20, 30, 255 comes back unchanged from
  one application of the transform, from two, and from encrypt; so does a 2 x 2 image,
  where the smoothFactor of two of the pixels is the inexact double 0.6464466094067263.
\<close>

theorem block_twice_returns_input:
  "(8::int) \<le> 8 \<and> (0::real) < 1 / 2 \<and>
   applyBlockConfusion [10, 20, 30, 255] 1 1 8 (1 / 2) = Inr [10, 20, 30, 255] \<and>
   apply_twice [10, 20, 30, 255] 1 1 8 (1 / 2) = Inr [10, 20, 30, 255] \<and>
   encrypt \<lparr>img_width = 1, img_height = 1, img_pixels = [10, 20, 30, 255]\<rparr> (1 / 2) 8
     = Done [10, 20, 30, 255] \<and>
   applyBlockConfusion
       [10, 20, 30, 255, 40, 50, 60, 255, 40, 50, 60, 255, 10, 20, 30, 255] 2 2 8 (1 / 2)
     = Inr [10, 20, 30, 255, 40, 50, 60, 255, 40, 50, 60, 255, 10, 20, 30, 255] \<and>
   apply_twice
       [10, 20, 30, 255, 40, 50, 60, 255, 40, 50, 60, 255, 10, 20, 30, 255] 2 2 8 (1 / 2)
     = Inr [10, 20, 30, 255, 40, 50, 60, 255, 40, 50, 60, 255, 10, 20, 30, 255]"
proof -
  have one: "applyBlockConfusion [10, 20, 30, 255] 1 1 8 (1 / 2) = Inr [10, 20, 30, 255]"
    using applyBlockConfusion_per_sample [of "[10, 20, 30, 255]" 1 1 8 "1 / 2"]
    by (simp add: per_sample_map_values)
  have four: "applyBlockConfusion
       [10, 20, 30, 255, 40, 50, 60, 255, 40, 50, 60, 255, 10, 20, 30, 255] 2 2 8 (1 / 2)
     = Inr [10, 20, 30, 255, 40, 50, 60, 255, 40, 50, 60, 255, 10, 20, 30, 255]"
    using applyBlockConfusion_per_sample
      [of "[10, 20, 30, 255, 40, 50, 60, 255, 40, 50, 60, 255, 10, 20, 30, 255]" 2 2 8 "1 / 2"]
    by (simp add: per_sample_map_values)
  show ?thesis by (simp add: one four apply_twice_def encrypt_def)
qed

text \<open>
  C6 (the snapshot equals the data): in processBlockSmooth the copy \<open>originalData\<close> is taken
  before any sample of the tile is written and each sample is written once, so both operands
  of every blend are the same value. For a tile that lies in the buffer, processBlockSmooth
  is the map \<open>smooth_tile\<close>, and the whole transform applyBlockConfusion is the map
  \<open>per_sample_map\<close>: each colour sample \<open>v\<close> becomes
  \<open>floor(v * smoothFactor + v * (1 - smoothFactor))\<close> in the double arithmetic of the source,
  a function of \<open>v\<close> and of its position alone, and alpha samples stay. The map is not the
  identity map: at strength 2 it turns the 7 of two pixels of a 2 x 2 image into 6, by the
  rounding of the two products and of their sum.
\<close>

theorem block_smooth_is_per_sample_map:
  assumes "int (length data) = 4 * width * height" "0 < width" "0 < height" "0 < blockSize"
  shows "applyBlockConfusion data width height blockSize strength
           = Inr (per_sample_map data width height blockSize strength) \<and>
         (\<forall>x y. 0 \<le> x \<and> x < width \<and> 0 \<le> y \<and> y < height \<longrightarrow>
            processBlockSmooth data x y (min blockSize (width - x)) (min blockSize (height - y))
              width strength
            = Inr (smooth_tile data x y (min blockSize (width - x)) (min blockSize (height - y))
                     width strength))"
proof (intro conjI allI impI)
  show "applyBlockConfusion data width height blockSize strength
        = Inr (per_sample_map data width height blockSize strength)"
    by (rule applyBlockConfusion_per_sample [OF assms])
  fix x y assume xy: "0 \<le> x \<and> x < width \<and> 0 \<le> y \<and> y < height"
  define bw where "bw = min blockSize (width - x)"
  define bh where "bh = min blockSize (height - y)"
  have b: "0 < bw" "0 < bh" "x + bw \<le> width" "y + bh \<le> height"
    using assms xy by (simp_all add: bw_def bh_def)
  have "(y + bh) * width \<le> height * width"
    using b(4) assms(2) by (intro mult_right_mono) simp_all
  then have fit: "(y + bh) * width * 4 \<le> int (length data)"
    using assms(1) by (simp add: mult.commute mult.assoc)
  from xy have "0 \<le> x" "0 \<le> y" by simp_all
  from processBlockSmooth_tile [OF this b(1,2,3) fit]
  show "processBlockSmooth data x y (min blockSize (width - x)) (min blockSize (height - y))
          width strength
        = Inr (smooth_tile data x y (min blockSize (width - x)) (min blockSize (height - y))
                 width strength)"
    unfolding bw_def bh_def .
qed

theorem block_smooth_is_per_sample_map_witness:
  "int (length [7, 7, 7, 255, 7, 7, 7, 255, 7, 7, 7, 255, 7, 7, 7, 255 :: byte]) = 4 * 2 * 2 \<and>
   (0::int) < 2 \<and> (0::int) < 8 \<and>
   applyBlockConfusion [7, 7, 7, 255, 7, 7, 7, 255, 7, 7, 7, 255, 7, 7, 7, 255] 2 2 8 2
     = Inr (per_sample_map [7, 7, 7, 255, 7, 7, 7, 255, 7, 7, 7, 255, 7, 7, 7, 255] 2 2 8 2) \<and>
   applyBlockConfusion [7, 7, 7, 255, 7, 7, 7, 255, 7, 7, 7, 255, 7, 7, 7, 255] 2 2 8 2
     = Inr [7, 7, 7, 255, 6, 6, 6, 255, 6, 6, 6, 255, 7, 7, 7, 255] \<and>
   (0::int) \<le> 0 \<and>
   processBlockSmooth [7, 7, 7, 255, 7, 7, 7, 255, 7, 7, 7, 255, 7, 7, 7, 255] 0 0
       (min 8 (2 - 0)) (min 8 (2 - 0)) 2 2
     = Inr (smooth_tile [7, 7, 7, 255, 7, 7, 7, 255, 7, 7, 7, 255, 7, 7, 7, 255] 0 0
              (min 8 (2 - 0)) (min 8 (2 - 0)) 2 2)"
proof -
  define data :: pixels where "data = [7, 7, 7, 255, 7, 7, 7, 255, 7, 7, 7, 255, 7, 7, 7, 255]"
  have t: "applyBlockConfusion data 2 2 8 2 = Inr (per_sample_map data 2 2 8 2) \<and>
        (\<forall>x y. 0 \<le> x \<and> x < (2::int) \<and> 0 \<le> y \<and> y < (2::int) \<longrightarrow>
           processBlockSmooth data x y (min 8 (2 - x)) (min 8 (2 - y)) 2 2
           = Inr (smooth_tile data x y (min 8 (2 - x)) (min 8 (2 - y)) 2 2))"
    by (rule block_smooth_is_per_sample_map) (simp_all add: data_def)
  have "processBlockSmooth data 0 0 (min 8 (2 - 0)) (min 8 (2 - 0)) 2 2
        = Inr (smooth_tile data 0 0 (min 8 (2 - 0)) (min 8 (2 - 0)) 2 2)"
    by (rule t [THEN conjunct2, rule_format]) simp
  moreover have "per_sample_map data 2 2 8 2
        = [7, 7, 7, 255, 6, 6, 6, 255, 6, 6, 6, 255, 7, 7, 7, 255]"
    unfolding data_def by (rule per_sample_map_values)
  ultimately show ?thesis using t [THEN conjunct1] unfolding data_def by simp
qed

end
